theory Spec2Isabelle
  imports Main "HOL-Library.Word"
begin

unbundle bit_operations_syntax

section \<open>dvdwrap: a DVD image directory presented as one concatenated file\<close>

text \<open>
  A shallow embedding of the file operations of \<^verbatim>\<open>dvdwrap_fuse.c\<close>, in the later of its
  two revisions (the one with \<^verbatim>\<open>dvdwrap_scan_videots\<close>, where a DVD image directory
  becomes one file named after the directory): the titleset scan, the attribute query,
  and the open / read / release life cycle of a handle on the concatenated titleset.

  C integers are machine words: \<^verbatim>\<open>uint64_t\<close>, \<^verbatim>\<open>size_t\<close> and \<^verbatim>\<open>off_t\<close> are
  \<open>64 word\<close> (an \<^verbatim>\<open>off_t\<close> compared with a \<^verbatim>\<open>uint64_t\<close> is converted to unsigned by
  the usual arithmetic conversions, so every comparison of the read path is the unsigned
  one), \<^verbatim>\<open>int\<close> return values of \<^verbatim>\<open>read\<close> are \<open>32 word\<close> read with \<open>sint\<close>. The loop
  counters \<^verbatim>\<open>maj\<close> and \<^verbatim>\<open>min\<close> stay below 100 and 10 and are natural numbers. Error
  codes and file descriptors are integers.
\<close>

subsection \<open>Constants of the source\<close>

definition MAX_VTS_MIN :: nat where
  "MAX_VTS_MIN = 10"

definition MAX_VTS_MAJ :: nat where
  "MAX_VTS_MAJ = 100"

definition FILE_EXTENSION :: string where
  "FILE_EXTENSION = ''.mpg''"

text \<open>From \<^verbatim>\<open>limits.h\<close> and \<^verbatim>\<open>errno.h\<close> on Linux.\<close>

definition PATH_MAX :: nat where
  "PATH_MAX = 4096"

definition ENOENT :: int where
  "ENOENT = 2"

definition ENOMEM :: int where
  "ENOMEM = 12"

subsection \<open>Formatting paths\<close>

text \<open>
  \<^verbatim>\<open>snprintf(buf, n, ...)\<close> stores at most \<open>n - 1\<close> characters of the formatted text.
\<close>

definition snprintf :: "nat \<Rightarrow> string \<Rightarrow> string" where
  "snprintf n text = take (n - 1) text"

definition digit :: "nat \<Rightarrow> char" where
  "digit d = ''0123456789'' ! (d mod 10)"

fun decimal :: "nat \<Rightarrow> string" where
  "decimal n = (if n < 10 then [digit n] else decimal (n div 10) @ [digit n])"

declare decimal.simps [simp del]

text \<open>\<^verbatim>\<open>%02d\<close> and \<^verbatim>\<open>%01d\<close> of a non-negative number.\<close>

definition fmt_02d :: "nat \<Rightarrow> string" where
  "fmt_02d n = (if n < 10 then CHR ''0'' # decimal n else decimal n)"

definition fmt_01d :: "nat \<Rightarrow> string" where
  "fmt_01d n = decimal n"

text \<open>
  \<^verbatim>\<open>snprintf(vtspath, PATH_MAX, "%s/VIDEO_TS/VTS_%02d_%01d.VOB", path, maj, min)\<close>
\<close>

definition vob_path :: "string \<Rightarrow> nat \<Rightarrow> nat \<Rightarrow> string" where
  "vob_path path maj mn =
     snprintf PATH_MAX (path @ ''/VIDEO_TS/VTS_'' @ fmt_02d maj @ ''_'' @ fmt_01d mn @ ''.VOB'')"

text \<open>\<^verbatim>\<open>snprintf(vtspath, PATH_MAX, "%s/VIDEO_TS/VIDEO_TS.IFO", targetpath)\<close>\<close>

definition ifo_path :: "string \<Rightarrow> string" where
  "ifo_path path = snprintf PATH_MAX (path @ ''/VIDEO_TS/VIDEO_TS.IFO'')"

text \<open>\<^verbatim>\<open>snprintf(targetpath, PATH_MAX, "%s/%s", ctx->sourcepath, path)\<close>\<close>

definition target_path :: "string \<Rightarrow> string \<Rightarrow> string" where
  "target_path sourcepath path = snprintf PATH_MAX (sourcepath @ ''/'' @ path)"

subsection \<open>The operating system as the code sees it\<close>

text \<open>
  The real tree is a map from the path string handed to \<^verbatim>\<open>lstat\<close> or \<^verbatim>\<open>open\<close> to the
  object it resolves to; \<open>None\<close> is a failing call. An object is a regular file: its mode,
  its bytes, and whether this process may open it for reading. The tree is read-only
  here (the program never writes, and no other writer is modelled). An open descriptor
  holds the bytes of its file and a position. \<open>nofile\<close> is the descriptor limit of the
  process; \<open>mem_ok\<close> tells whether \<^verbatim>\<open>calloc\<close> succeeds.
\<close>

type_synonym byte = "8 word"

record inode =
  i_mode :: "32 word"
  i_data :: "byte list"
  i_readable :: bool

record ofile =
  of_data :: "byte list"
  of_pos :: nat

record os =
  files :: "string \<Rightarrow> inode option"
  fdtab :: "nat \<Rightarrow> ofile option"
  nofile :: nat
  mem_ok :: bool

record stat =
  st_mode :: "32 word"
  st_size :: "64 word"

definition zero_stat :: stat where
  "zero_stat = \<lparr>st_mode = 0, st_size = 0\<rparr>"

text \<open>\<^verbatim>\<open>lstat(path, &st)\<close>: \<open>None\<close> when it returns a negative value.\<close>

definition lstat :: "os \<Rightarrow> string \<Rightarrow> stat option" where
  "lstat s p =
     (case files s p of
        None \<Rightarrow> None
      | Some i \<Rightarrow> Some \<lparr>st_mode = i_mode i, st_size = of_nat (length (i_data i))\<rparr>)"

text \<open>
  \<^verbatim>\<open>open(path, O_RDONLY)\<close>: the lowest descriptor not in use, or -1 when the file is
  missing, may not be read, or the descriptor table is full.
\<close>

definition sys_open :: "os \<Rightarrow> string \<Rightarrow> int \<times> os" where
  "sys_open s p =
     (case files s p of
        None \<Rightarrow> (- 1, s)
      | Some i \<Rightarrow>
          if \<not> i_readable i then (- 1, s)
          else (case find (\<lambda>n. fdtab s n = None) [0..<nofile s] of
                  None \<Rightarrow> (- 1, s)
                | Some n \<Rightarrow>
                    (int n, s\<lparr>fdtab := (fdtab s)(n \<mapsto> \<lparr>of_data = i_data i, of_pos = 0\<rparr>)\<rparr>)))"

text \<open>\<^verbatim>\<open>close(fd)\<close>: -1 (\<^verbatim>\<open>EBADF\<close>) when the descriptor is not open.\<close>

definition sys_close :: "os \<Rightarrow> int \<Rightarrow> int \<times> os" where
  "sys_close s fd =
     (if 0 \<le> fd \<and> fdtab s (nat fd) \<noteq> None
      then (0, s\<lparr>fdtab := (fdtab s)(nat fd := None)\<rparr>)
      else (- 1, s))"

text \<open>\<^verbatim>\<open>lseek(fd, offset, SEEK_SET)\<close>: fails on a bad descriptor or a negative offset.\<close>

definition sys_lseek :: "os \<Rightarrow> int \<Rightarrow> 64 word \<Rightarrow> int \<times> os" where
  "sys_lseek s fd offset =
     (if 0 \<le> fd \<and> 0 \<le> sint offset
      then (case fdtab s (nat fd) of
              None \<Rightarrow> (- 1, s)
            | Some f \<Rightarrow> (sint offset,
                          s\<lparr>fdtab := (fdtab s)(nat fd \<mapsto> f\<lparr>of_pos := nat (sint offset)\<rparr>)\<rparr>))
      else (- 1, s))"

text \<open>
  \<^verbatim>\<open>read(fd, buf, count)\<close> on a regular file returns the bytes from the position up to
  \<open>count\<close> of them or the end of the file, and advances the position. Linux transfers at
  most \<open>0x7ffff000\<close> bytes in one call. The result is the \<^verbatim>\<open>ssize_t\<close> return value, the
  bytes stored, and the new state.
\<close>

definition MAX_RW_COUNT :: nat where
  "MAX_RW_COUNT = 0x7ffff000"

definition sys_read :: "os \<Rightarrow> int \<Rightarrow> 64 word \<Rightarrow> 64 word \<times> byte list \<times> os" where
  "sys_read s fd count =
     (if 0 \<le> fd
      then (case fdtab s (nat fd) of
              None \<Rightarrow> (- 1, [], s)
            | Some f \<Rightarrow>
                (let got = take (min (unat count) MAX_RW_COUNT) (drop (of_pos f) (of_data f))
                 in (of_nat (length got), got,
                     s\<lparr>fdtab := (fdtab s)(nat fd \<mapsto> f\<lparr>of_pos := of_pos f + length got\<rparr>)\<rparr>)))
      else (- 1, [], s))"

subsection \<open>\<^verbatim>\<open>dvdwrap_scan_videots\<close>\<close>

text \<open>
  The inner loop over the minor numbers of one titleset, from \<open>min\<close> on. It returns the
  value of \<open>min\<close> at which the loop was left and the \<open>titlesize\<close> table.
\<close>

function scan_min :: "os \<Rightarrow> string \<Rightarrow> nat \<Rightarrow> nat \<Rightarrow> 64 word list \<Rightarrow> nat \<times> 64 word list" where
  "scan_min s path maj mn titlesize =
     (if mn < MAX_VTS_MIN then
        (case lstat s (vob_path path maj mn) of
           None \<Rightarrow> (mn, titlesize)
         | Some st \<Rightarrow>
             scan_min s path maj (Suc mn) (titlesize[maj := titlesize ! maj + st_size st]))
      else (mn, titlesize))"
  by pat_completeness auto
termination
  by (relation "measure (\<lambda>(s, path, maj, mn, titlesize). MAX_VTS_MIN - mn)") auto

declare scan_min.simps [simp del]

text \<open>
  The outer loop over the major numbers, from \<open>maj\<close> on, carrying \<open>titlesize\<close>,
  \<open>longest_maj\<close> and \<open>longest_size\<close>. It is left at the first major number without a
  segment of minor number 1 (\<^verbatim>\<open>if (min == 1) break\<close>).
\<close>

function scan_maj ::
  "os \<Rightarrow> string \<Rightarrow> nat \<Rightarrow> 64 word list \<Rightarrow> nat \<Rightarrow> 64 word \<Rightarrow> nat \<times> 64 word" where
  "scan_maj s path maj titlesize longest_maj longest_size =
     (if maj < MAX_VTS_MAJ then
        (case scan_min s path maj 1 titlesize of
           (mn, titlesize') \<Rightarrow>
             if mn = 1 then (longest_maj, longest_size)
             else if titlesize' ! maj > longest_size
               then scan_maj s path (Suc maj) titlesize' maj (titlesize' ! maj)
               else scan_maj s path (Suc maj) titlesize' longest_maj longest_size)
      else (longest_maj, longest_size))"
  by pat_completeness auto
termination
  by (relation "measure (\<lambda>(s, path, maj, titlesize, longest_maj, longest_size). MAX_VTS_MAJ - maj)")
     auto

declare scan_maj.simps [simp del]

text \<open>
  The scan proper: \<open>Some (vts_maj, total_size)\<close> when it returns 0, \<open>None\<close> when it
  returns -1. \<^verbatim>\<open>memset\<close> clears the table of \<open>MAX_VTS_MAJ\<close> sizes first.
\<close>

definition dvdwrap_scan_videots :: "os \<Rightarrow> string \<Rightarrow> (nat \<times> 64 word) option" where
  "dvdwrap_scan_videots s path =
     (case scan_maj s path 1 (replicate MAX_VTS_MAJ 0) 0 0 of
        (longest_maj, longest_size) \<Rightarrow>
          if longest_maj \<noteq> 0 then Some (longest_maj, longest_size) else None)"

subsection \<open>The suffix test of \<^verbatim>\<open>dvdwrap_getattr\<close> and \<^verbatim>\<open>dvdwrap_open\<close>\<close>

text \<open>
  A result of an operation that indexes a path buffer: \<open>OutOfBounds\<close> when the index
  computed by the source lies outside the buffer, so that C gives the call no meaning.
\<close>

datatype 'a run = OutOfBounds | Done 'a

text \<open>The return value of an operation, when it has one.\<close>

definition result_code :: "(int \<times> 'a) run \<Rightarrow> int option" where
  "result_code r = (case r of OutOfBounds \<Rightarrow> None | Done x \<Rightarrow> Some (fst x))"

text \<open>
  \<^verbatim>\<open>strcmp(&targetpath[strlen(targetpath) - strlen(FILE_EXTENSION)], FILE_EXTENSION) == 0\<close>.
  The subtraction is made in \<^verbatim>\<open>size_t\<close>: on a path shorter than the extension it wraps,
  and the comparison starts outside \<open>targetpath\<close>.
\<close>

definition has_extension :: "string \<Rightarrow> bool run" where
  "has_extension targetpath =
     (if length targetpath < length FILE_EXTENSION then OutOfBounds
      else Done (drop (length targetpath - length FILE_EXTENSION) targetpath = FILE_EXTENSION))"

text \<open>\<^verbatim>\<open>targetpath[strlen(targetpath) - strlen(FILE_EXTENSION)] = '\0'\<close>\<close>

definition strip_extension :: "string \<Rightarrow> string" where
  "strip_extension targetpath = take (length targetpath - length FILE_EXTENSION) targetpath"

subsection \<open>\<^verbatim>\<open>dvdwrap_getattr\<close>\<close>

text \<open>
  The result is the return value and the contents of \<open>stbuf\<close>, which \<^verbatim>\<open>memset\<close> has
  cleared and a failing \<^verbatim>\<open>lstat\<close> leaves alone. The operation calls \<^verbatim>\<open>lstat\<close> only,
  so the state is not changed. The write bits \<^verbatim>\<open>0222\<close> (octal) are \<open>0x92\<close>.
\<close>

definition dvdwrap_getattr :: "string \<Rightarrow> string \<Rightarrow> os \<Rightarrow> (int \<times> stat) run" where
  "dvdwrap_getattr sourcepath path s =
     (let targetpath = target_path sourcepath path in
      case has_extension targetpath of
        OutOfBounds \<Rightarrow> OutOfBounds
      | Done True \<Rightarrow>
          (let targetpath' = strip_extension targetpath in
           case lstat s (ifo_path targetpath') of
             Some stbuf \<Rightarrow>
               (case dvdwrap_scan_videots s targetpath' of
                  Some (maj, tot) \<Rightarrow> Done (0, stbuf\<lparr>st_size := tot\<rparr>)
                | None \<Rightarrow> Done (- ENOENT, stbuf))
           | None \<Rightarrow> Done (- ENOENT, zero_stat))
      | Done False \<Rightarrow>
          (case lstat s targetpath of
             None \<Rightarrow> Done (- ENOENT, zero_stat)
           | Some stbuf \<Rightarrow> Done (0, stbuf\<lparr>st_mode := st_mode stbuf AND NOT 0x92\<rparr>)))"

subsection \<open>The handle\<close>

record dvdwrap_vts_t =
  vts_fd :: int
  vts_size :: "64 word"

record dvdwrap_fh_t =
  vts :: "dvdwrap_vts_t list"
  total_size :: "64 word"

text \<open>\<^verbatim>\<open>calloc(1, sizeof(dvdwrap_fh_t))\<close>: \<open>MAX_VTS_MIN\<close> cleared slots and a cleared total.\<close>

definition calloc_fh :: dvdwrap_fh_t where
  "calloc_fh = \<lparr>vts = replicate MAX_VTS_MIN \<lparr>vts_fd = 0, vts_size = 0\<rparr>, total_size = 0\<rparr>"

subsection \<open>\<^verbatim>\<open>dvdwrap_release\<close>\<close>

function release_loop :: "dvdwrap_fh_t \<Rightarrow> nat \<Rightarrow> os \<Rightarrow> os" where
  "release_loop private mn s =
     (if mn < MAX_VTS_MIN then
        (if vts_size (vts private ! mn) \<noteq> 0
         then release_loop private (Suc mn) (snd (sys_close s (vts_fd (vts private ! mn))))
         else release_loop private (Suc mn) s)
      else s)"
  by pat_completeness auto
termination
  by (relation "measure (\<lambda>(private, mn, s). MAX_VTS_MIN - mn)") auto

declare release_loop.simps [simp del]

text \<open>
  The result is the return value, the new value of \<^verbatim>\<open>fi->fh\<close> (\<open>None\<close> for 0), and the
  state.
\<close>

definition dvdwrap_release :: "dvdwrap_fh_t \<Rightarrow> os \<Rightarrow> int \<times> dvdwrap_fh_t option \<times> os" where
  "dvdwrap_release private s = (- ENOENT, None, release_loop private 1 s)"

subsection \<open>\<^verbatim>\<open>dvdwrap_open\<close>\<close>

text \<open>
  The loop that opens the segments of titleset \<open>maj\<close>, from \<open>mn\<close> on. The flag of the
  result is \<open>False\<close> when the loop was left by \<^verbatim>\<open>goto fail\<close>.
\<close>

function open_loop ::
  "string \<Rightarrow> nat \<Rightarrow> nat \<Rightarrow> dvdwrap_fh_t \<Rightarrow> os \<Rightarrow> bool \<times> dvdwrap_fh_t \<times> os" where
  "open_loop targetpath maj mn private s =
     (if mn < MAX_VTS_MIN then
        (case lstat s (vob_path targetpath maj mn) of
           None \<Rightarrow> (True, private, s)
         | Some st \<Rightarrow>
             (case sys_open s (vob_path targetpath maj mn) of
                (fd, s') \<Rightarrow>
                  (let private1 = private\<lparr>vts := (vts private)[mn := (vts private ! mn)\<lparr>vts_fd := fd\<rparr>]\<rparr>
                   in if fd < 0 then (False, private1, s')
                      else open_loop targetpath maj (Suc mn)
                             (private1\<lparr>vts := (vts private1)[mn := (vts private1 ! mn)\<lparr>vts_size := st_size st\<rparr>],
                                       total_size := total_size private1 + st_size st\<rparr>) s')))
      else (True, private, s))"
  by pat_completeness auto
termination
  by (relation "measure (\<lambda>(targetpath, maj, mn, private, s). MAX_VTS_MIN - mn)") auto

declare open_loop.simps [simp del]

text \<open>
  The result is the return value, the value of \<^verbatim>\<open>fi->fh\<close> the call leaves (\<open>None\<close> when
  it was not set, or was reset by the clean-up), and the state.
\<close>

definition dvdwrap_open ::
  "string \<Rightarrow> string \<Rightarrow> os \<Rightarrow> (int \<times> dvdwrap_fh_t option \<times> os) run" where
  "dvdwrap_open sourcepath path s =
     (let targetpath = target_path sourcepath path in
      case has_extension targetpath of
        OutOfBounds \<Rightarrow> OutOfBounds
      | Done False \<Rightarrow> Done (- ENOENT, None, s)
      | Done True \<Rightarrow>
          (let targetpath' = strip_extension targetpath in
           case dvdwrap_scan_videots s targetpath' of
             None \<Rightarrow> Done (- ENOENT, None, s)
           | Some (maj, tot) \<Rightarrow>
               if \<not> mem_ok s then Done (- ENOMEM, None, s)
               else (case open_loop targetpath' maj 1 (calloc_fh\<lparr>total_size := 0\<rparr>) s of
                       (True, private, s') \<Rightarrow> Done (0, Some private, s')
                     | (False, private, s') \<Rightarrow>
                         (case dvdwrap_release private s' of
                            (rc, fh, s'') \<Rightarrow> Done (- ENOENT, fh, s'')))))"

subsection \<open>\<^verbatim>\<open>dvdwrap_read\<close>\<close>

text \<open>
  The loop that finds the segment of an offset: it returns the value of \<open>min\<close> at which
  it was left (\<open>MAX_VTS_MIN\<close> when no segment holds the offset) and the offset within
  that segment.
\<close>

function locate :: "dvdwrap_fh_t \<Rightarrow> nat \<Rightarrow> 64 word \<Rightarrow> nat \<times> 64 word" where
  "locate private mn thisoffset =
     (if mn < MAX_VTS_MIN then
        (if thisoffset < vts_size (vts private ! mn) then (mn, thisoffset)
         else locate private (Suc mn) (thisoffset - vts_size (vts private ! mn)))
      else (mn, thisoffset))"
  by pat_completeness auto
termination
  by (relation "measure (\<lambda>(private, mn, thisoffset). MAX_VTS_MIN - mn)") auto

declare locate.simps [simp del]

text \<open>
  The \<^verbatim>\<open>while (total < size)\<close> loop, with \<open>sz\<close> and \<open>tot\<close> for \<^verbatim>\<open>size\<close> and
  \<^verbatim>\<open>total\<close>. \<open>buf\<close> is what has been stored in the caller's buffer so far. \<^verbatim>\<open>rc\<close> is an \<^verbatim>\<open>int\<close>: the \<^verbatim>\<open>ssize_t\<close> that \<^verbatim>\<open>read\<close> returns is cut to
  32 bits, and so is \<^verbatim>\<open>total\<close> when it is returned. The loop need not end (a \<^verbatim>\<open>read\<close>
  that returns 0 changes nothing), so the function is partial: \<open>None\<close> is a call that
  does not return.
\<close>

definition int_of_size :: "64 word \<Rightarrow> int" where
  "int_of_size n = sint (ucast n :: 32 word)"

partial_function (option) read_loop ::
  "dvdwrap_fh_t \<Rightarrow> 64 word \<Rightarrow> 64 word \<Rightarrow> 64 word \<Rightarrow> byte list \<Rightarrow> os \<Rightarrow> (int \<times> byte list \<times> os) option"
  where
  "read_loop private sz offset tot buf s =
     (if tot < sz then
        (case locate private 1 offset of
           (mn, thisoffset) \<Rightarrow>
             if mn = MAX_VTS_MIN then Some (int_of_size tot, buf, s)
             else
               (case sys_read (snd (sys_lseek s (vts_fd (vts private ! mn)) thisoffset))
                       (vts_fd (vts private ! mn))
                       (if sz - tot > vts_size (vts private ! mn) - thisoffset
                        then vts_size (vts private ! mn) - thisoffset else sz - tot) of
                  (n, got, s') \<Rightarrow>
                    if int_of_size n < 0 then Some (int_of_size n, buf, s')
                    else read_loop private sz
                           (offset + word_of_int (int_of_size n))
                           (tot + word_of_int (int_of_size n)) (buf @ got) s'))
      else Some (int_of_size tot, buf, s))"

declare read_loop.simps [code]

definition dvdwrap_read ::
  "dvdwrap_fh_t \<Rightarrow> 64 word \<Rightarrow> 64 word \<Rightarrow> os \<Rightarrow> (int \<times> byte list \<times> os) option" where
  "dvdwrap_read private sz offset s =
     (if offset \<ge> total_size private then Some (0, [], s)
      else read_loop private sz offset 0 [] s)"

section \<open>The specification's view of a DVD image\<close>

text \<open>
  The sizes of the segments of titleset \<open>maj\<close> as the specification counts them: the
  files of minor number \<open>mn\<close>, \<open>mn + 1\<close>, ... up to the first missing one, at most \<open>k\<close>
  of them. A titleset has the minor numbers 1 to 9, so the menu segment (minor number 0)
  is not among them; its aggregate size is their sum. The titlesets of an image are the
  major numbers 1, 2, ... (at most 99) up to the first one without a segment of minor
  number 1.
\<close>

fun segment_sizes :: "os \<Rightarrow> string \<Rightarrow> nat \<Rightarrow> nat \<Rightarrow> nat \<Rightarrow> 64 word list" where
  "segment_sizes s path maj mn 0 = []"
| "segment_sizes s path maj mn (Suc k) =
     (case lstat s (vob_path path maj mn) of
        None \<Rightarrow> []
      | Some st \<Rightarrow> st_size st # segment_sizes s path maj (Suc mn) k)"

definition titleset_sizes :: "os \<Rightarrow> string \<Rightarrow> nat \<Rightarrow> 64 word list" where
  "titleset_sizes s path maj = segment_sizes s path maj 1 9"

definition aggregate_size :: "os \<Rightarrow> string \<Rightarrow> nat \<Rightarrow> 64 word" where
  "aggregate_size s path maj = sum_list (titleset_sizes s path maj)"

fun titlesets_from :: "os \<Rightarrow> string \<Rightarrow> nat \<Rightarrow> nat \<Rightarrow> nat list" where
  "titlesets_from s path maj 0 = []"
| "titlesets_from s path maj (Suc k) =
     (case lstat s (vob_path path maj 1) of
        None \<Rightarrow> []
      | Some st \<Rightarrow> maj # titlesets_from s path (Suc maj) k)"

definition titlesets :: "os \<Rightarrow> string \<Rightarrow> nat list" where
  "titlesets s path = titlesets_from s path 1 99"

text \<open>
  The choice among the titlesets: the first of the largest aggregate size, starting from
  \<open>best\<close>; a titleset replaces the choice only when it is strictly larger.
\<close>

fun select_longest :: "os \<Rightarrow> string \<Rightarrow> nat list \<Rightarrow> nat \<times> 64 word \<Rightarrow> nat \<times> 64 word" where
  "select_longest s path [] best = best"
| "select_longest s path (m # ms) best =
     (if aggregate_size s path m > snd best
      then select_longest s path ms (m, aggregate_size s path m)
      else select_longest s path ms best)"

text \<open>
  The contents of the segment files of titleset \<open>maj\<close>, in the same order and with the
  same stop at the first missing one, and their concatenation: the single contiguous file
  the specification speaks of.
\<close>

fun segment_files :: "os \<Rightarrow> string \<Rightarrow> nat \<Rightarrow> nat \<Rightarrow> nat \<Rightarrow> byte list list" where
  "segment_files s path maj mn 0 = []"
| "segment_files s path maj mn (Suc k) =
     (case files s (vob_path path maj mn) of
        None \<Rightarrow> []
      | Some i \<Rightarrow> i_data i # segment_files s path maj (Suc mn) k)"

definition titleset_files :: "os \<Rightarrow> string \<Rightarrow> nat \<Rightarrow> byte list list" where
  "titleset_files s path maj = segment_files s path maj 1 9"

definition titleset_data :: "os \<Rightarrow> string \<Rightarrow> nat \<Rightarrow> byte list" where
  "titleset_data s path maj = concat (titleset_files s path maj)"

text \<open>
  What the synthetic file \<open>path\<close> stands for in the tree of state \<open>s\<close>: the concatenated
  segments of the titleset the scan selects under the DVD image root of \<open>path\<close>.
\<close>

definition exposed_data :: "string \<Rightarrow> string \<Rightarrow> os \<Rightarrow> byte list" where
  "exposed_data sourcepath path s =
     (case dvdwrap_scan_videots s (strip_extension (target_path sourcepath path)) of
        None \<Rightarrow> []
      | Some (maj, tot) \<Rightarrow> titleset_data s (strip_extension (target_path sourcepath path)) maj)"

text \<open>
  An open handle: \<open>session sourcepath path s0 h s\<close> holds when \<open>h\<close> was returned by a
  successful \<^verbatim>\<open>dvdwrap_open\<close> of \<open>path\<close> in state \<open>s0\<close>, and \<open>s\<close> is the state after that
  call and any number of reads on \<open>h\<close>.
\<close>

inductive session :: "string \<Rightarrow> string \<Rightarrow> os \<Rightarrow> dvdwrap_fh_t \<Rightarrow> os \<Rightarrow> bool"
  for sourcepath path s0 where
  opened: "dvdwrap_open sourcepath path s0 = Done (0, Some h, s) \<Longrightarrow> session sourcepath path s0 h s"
| read: "session sourcepath path s0 h s \<Longrightarrow> dvdwrap_read h sz offset s = Some (rc, bytes, s') \<Longrightarrow>
         session sourcepath path s0 h s'"

text \<open>
  The invariant of an open handle on the segments \<open>segs\<close>: slot \<open>i + 1\<close> holds an
  open descriptor on the bytes of segment \<open>i\<close> and their number, the slots after the last
  segment have size 0, and the total is the sum.
\<close>

definition handle_ok :: "dvdwrap_fh_t \<Rightarrow> os \<Rightarrow> byte list list \<Rightarrow> bool" where
  "handle_ok h s segs \<longleftrightarrow>
     length (vts h) = MAX_VTS_MIN \<and> length segs < MAX_VTS_MIN \<and>
     (\<forall>i<length segs.
        0 \<le> vts_fd (vts h ! Suc i) \<and>
        (\<exists>f. fdtab s (nat (vts_fd (vts h ! Suc i))) = Some f \<and> of_data f = segs ! i) \<and>
        vts_size (vts h ! Suc i) = of_nat (length (segs ! i))) \<and>
     (\<forall>i. length segs < i \<and> i < MAX_VTS_MIN \<longrightarrow> vts_size (vts h ! i) = 0) \<and>
     total_size h = of_nat (length (concat segs))"



section \<open>Example trees\<close>

text \<open>
  Trees of regular files of mode \<open>0100644\<close> under the source directory \<open>/src\<close>, in a
  process that has the descriptors 0, 1 and 2 open and may hold 16. The first one is the
  round trip example of the specification: segments of 100, 200 and 50 bytes and a menu
  segment of 10 bytes.
\<close>

definition regular_file :: "byte list \<Rightarrow> inode" where
  "regular_file bs = \<lparr>i_mode = 0x81A4, i_data = bs, i_readable = True\<rparr>"

definition tree_os :: "(string \<times> byte list) list \<Rightarrow> os" where
  "tree_os fs =
     \<lparr>files = map_of (map (\<lambda>(p, bs). (p, regular_file bs)) fs),
      fdtab = (\<lambda>n. if n < 3 then Some \<lparr>of_data = [], of_pos = 0\<rparr> else None),
      nofile = 16, mem_ok = True\<rparr>"

definition menu_vob :: "byte list" where
  "menu_vob = replicate 10 0"

definition first_vob :: "byte list" where
  "first_vob = replicate 100 1"

definition second_vob :: "byte list" where
  "second_vob = replicate 200 2"

definition third_vob :: "byte list" where
  "third_vob = replicate 50 3"

definition roundtrip_os :: os where
  "roundtrip_os = tree_os
     [(''/src//dvd/VIDEO_TS/VIDEO_TS.IFO'', []),
      (''/src//dvd/VIDEO_TS/VTS_01_0.VOB'', menu_vob),
      (''/src//dvd/VIDEO_TS/VTS_01_1.VOB'', first_vob),
      (''/src//dvd/VIDEO_TS/VTS_01_2.VOB'', second_vob),
      (''/src//dvd/VIDEO_TS/VTS_01_3.VOB'', third_vob)]"

text \<open>Titlesets 1 and 3 with no titleset 2; a titleset 2 with no titleset 1.\<close>

definition major_gap_os :: os where
  "major_gap_os = tree_os
     [(''/src//dvd/VIDEO_TS/VIDEO_TS.IFO'', [0]),
      (''/src//dvd/VIDEO_TS/VTS_01_1.VOB'', [1]),
      (''/src//dvd/VIDEO_TS/VTS_03_1.VOB'', [3, 3])]"

definition no_first_major_os :: os where
  "no_first_major_os = tree_os
     [(''/src//dvd/VIDEO_TS/VIDEO_TS.IFO'', [0]),
      (''/src//dvd/VIDEO_TS/VTS_02_1.VOB'', [2, 2])]"

text \<open>Segments 1, 2 and 4 of a titleset, without segment 3; two titlesets in a row.\<close>

definition gap_os :: os where
  "gap_os = tree_os
     [(''/src//dvd/VIDEO_TS/VIDEO_TS.IFO'', []),
      (''/src//dvd/VIDEO_TS/VTS_01_1.VOB'', [1, 1, 1]),
      (''/src//dvd/VIDEO_TS/VTS_01_2.VOB'', [2, 2, 2, 2]),
      (''/src//dvd/VIDEO_TS/VTS_01_4.VOB'', [4, 4, 4, 4, 4])]"

definition two_titlesets_os :: os where
  "two_titlesets_os = tree_os
     [(''/src//dvd/VIDEO_TS/VIDEO_TS.IFO'', []),
      (''/src//dvd/VIDEO_TS/VTS_01_1.VOB'', [1]),
      (''/src//dvd/VIDEO_TS/VTS_02_1.VOB'', [2, 2]),
      (''/src//dvd/VIDEO_TS/VTS_02_2.VOB'', [2])]"

text \<open>An image without its index file; an image whose second segment is empty.\<close>

definition no_ifo_os :: os where
  "no_ifo_os = tree_os
     [(''/src//dvd/VIDEO_TS/VTS_01_1.VOB'', [1, 1, 1])]"

definition empty_segment_os :: os where
  "empty_segment_os = tree_os
     [(''/src//dvd/VIDEO_TS/VIDEO_TS.IFO'', []),
      (''/src//dvd/VIDEO_TS/VTS_01_1.VOB'', [1]),
      (''/src//dvd/VIDEO_TS/VTS_01_2.VOB'', [])]"

text \<open>An image whose only titleset has two segments, both empty.\<close>

definition empty_titleset_os :: os where
  "empty_titleset_os = tree_os
     [(''/src//dvd/VIDEO_TS/VIDEO_TS.IFO'', []),
      (''/src//dvd/VIDEO_TS/VTS_01_1.VOB'', []),
      (''/src//dvd/VIDEO_TS/VTS_01_2.VOB'', [])]"

text \<open>The handle and the state that opening the image with the empty second segment gives.\<close>

definition leak_handle :: dvdwrap_fh_t where
  "leak_handle =
     \<lparr>vts = [\<lparr>vts_fd = 0, vts_size = 0\<rparr>, \<lparr>vts_fd = 3, vts_size = 1\<rparr>, \<lparr>vts_fd = 4, vts_size = 0\<rparr>,
             \<lparr>vts_fd = 0, vts_size = 0\<rparr>, \<lparr>vts_fd = 0, vts_size = 0\<rparr>, \<lparr>vts_fd = 0, vts_size = 0\<rparr>,
             \<lparr>vts_fd = 0, vts_size = 0\<rparr>, \<lparr>vts_fd = 0, vts_size = 0\<rparr>, \<lparr>vts_fd = 0, vts_size = 0\<rparr>,
             \<lparr>vts_fd = 0, vts_size = 0\<rparr>],
      total_size = 1\<rparr>"

definition leak_state :: os where
  "leak_state = empty_segment_os
     \<lparr>fdtab := (fdtab empty_segment_os)
        (3 \<mapsto> \<lparr>of_data = [1], of_pos = 0\<rparr>, 4 \<mapsto> \<lparr>of_data = [], of_pos = 0\<rparr>)\<rparr>"

section \<open>Properties\<close>

subsection \<open>Evaluation\<close>

lemmas path_eval = vob_path_def ifo_path_def target_path_def snprintf_def PATH_MAX_def
  fmt_02d_def fmt_01d_def decimal.simps digit_def has_extension_def strip_extension_def
  FILE_EXTENSION_def

lemmas tree_eval = tree_os_def regular_file_def lstat_def

lemmas scan_eval = dvdwrap_scan_videots_def scan_maj.simps scan_min.simps MAX_VTS_MAJ_def
  MAX_VTS_MIN_def

lemmas spec_eval = aggregate_size_def titleset_sizes_def

lemma vob_lengths:
  "length menu_vob = 10" "length first_vob = 100" "length second_vob = 200" "length third_vob = 50"
  by (simp_all add: menu_vob_def first_vob_def second_vob_def third_vob_def)

lemma segment_files_unfold:
  "segment_files s path maj mn k =
     (if k = 0 then []
      else (case files s (vob_path path maj mn) of
              None \<Rightarrow> []
            | Some i \<Rightarrow> i_data i # segment_files s path maj (Suc mn) (k - 1)))"
  by (cases k) (auto split: option.splits)

lemma segment_sizes_unfold:
  "segment_sizes s path maj mn k =
     (if k = 0 then []
      else (case lstat s (vob_path path maj mn) of
              None \<Rightarrow> []
            | Some st \<Rightarrow> st_size st # segment_sizes s path maj (Suc mn) (k - 1)))"
  by (cases k) (auto split: option.splits)

subsection \<open>Machine words\<close>

lemma unat_of_nat_64: "a < 2 ^ 64 \<Longrightarrow> unat (of_nat a :: 64 word) = a"
  by (simp add: unat_of_nat)

lemma uint_less_of_unat_less: "unat (w :: 'a::len word) < n \<Longrightarrow> uint w < int n"
  by (simp only: uint_nat of_nat_less_iff)

lemma sint_eq_unat_64: "unat (w :: 64 word) < 2 ^ 63 \<Longrightarrow> sint w = int (unat w)"
proof -
  assume "unat w < 2 ^ 63"
  then have "uint w < int (2 ^ 63)" by (rule uint_less_of_unat_less)
  then have "uint w < 2 ^ 63" by (simp only: of_nat_power of_nat_numeral)
  then have "signed_take_bit 63 (uint w) = uint w"
    by (intro signed_take_bit_int_eq_self) (simp_all add: order_trans [of _ 0])
  then have "sint w = uint w" by (simp add: sint_uint)
  then show ?thesis by (simp only: uint_nat)
qed

lemma int_of_size_small: "unat w < 2 ^ 31 \<Longrightarrow> int_of_size w = int (unat w)"
proof -
  assume "unat w < 2 ^ 31"
  then have "uint w < int (2 ^ 31)" by (rule uint_less_of_unat_less)
  then have u: "uint w < 2 ^ 31" by (simp only: of_nat_power of_nat_numeral)
  have "uint (ucast w :: 32 word) = take_bit 32 (uint w)"
    by (simp only: unsigned_ucast_eq len_bit0 len_num1) simp
  also have "\<dots> = uint w"
    using u by (intro take_bit_int_eq_self) simp_all
  finally have eq: "uint (ucast w :: 32 word) = uint w" .
  have "sint (ucast w :: 32 word) = signed_take_bit 31 (uint w)"
    by (simp only: sint_uint eq) simp
  also have "\<dots> = uint w"
    using u by (intro signed_take_bit_int_eq_self) (simp_all add: order_trans [of _ 0])
  finally show ?thesis by (simp only: int_of_size_def uint_nat)
qed

lemma unat_add_64:
  "unat (a :: 64 word) + n < 2 ^ 64 \<Longrightarrow> unat (a + of_nat n) = unat a + n"
proof -
  assume a: "unat a + n < 2 ^ 64"
  then have n: "n < 2 ^ 64" by simp
  have "unat (a + of_nat n) = (unat a + unat (of_nat n :: 64 word)) mod 2 ^ 64"
    by (simp only: unat_word_ariths(1)) simp
  also have "\<dots> = (unat a + n) mod 2 ^ 64" using n by (simp only: unat_of_nat_64)
  also have "\<dots> = unat a + n" using a by simp
  finally show ?thesis .
qed

lemma sint_nonneg_unat: "0 \<le> sint (w :: 64 word) \<Longrightarrow> int (unat w) = sint w"
proof -
  assume nn: "0 \<le> sint w"
  have "sint w < 2 ^ (LENGTH(64) - 1)" by (rule sint_lt)
  then have "sint w < 2 ^ 64" by (rule less_trans) simp
  with nn have "take_bit 64 (sint w) = sint w" by (intro take_bit_int_eq_self)
  moreover have "uint w = take_bit 64 (sint w)" using uint_sint [of w] by simp
  ultimately have "uint w = sint w" by simp
  then show ?thesis by (simp only: uint_nat)
qed

subsection \<open>The scan\<close>

lemma scan_min_eq:
  "mn \<le> MAX_VTS_MIN \<Longrightarrow> maj < length ts \<Longrightarrow>
   scan_min s path maj mn ts =
     (mn + length (segment_sizes s path maj mn (MAX_VTS_MIN - mn)),
      ts[maj := ts ! maj + sum_list (segment_sizes s path maj mn (MAX_VTS_MIN - mn))])"
proof (induction s path maj mn ts rule: scan_min.induct)
  case (1 s path maj mn ts)
  show ?case
  proof (cases "mn < MAX_VTS_MIN")
    case False
    with "1.prems" show ?thesis
      by (simp add: scan_min.simps)
  next
    case True
    then obtain k where k: "MAX_VTS_MIN - mn = Suc k" "MAX_VTS_MIN - Suc mn = k"
      by (cases "MAX_VTS_MIN - mn") auto
    show ?thesis
    proof (cases "lstat s (vob_path path maj mn)")
      case None
      with True k show ?thesis
        by (subst scan_min.simps) simp
    next
      case (Some st)
      have "scan_min s path maj (Suc mn) (ts[maj := ts ! maj + st_size st]) =
        (Suc mn + length (segment_sizes s path maj (Suc mn) k),
         (ts[maj := ts ! maj + st_size st])[maj := (ts[maj := ts ! maj + st_size st]) ! maj
             + sum_list (segment_sizes s path maj (Suc mn) k)])"
        using "1.IH"[OF True Some] True "1.prems" k by simp
      with True Some k "1.prems" show ?thesis
        by (subst scan_min.simps) (simp add: add.assoc)
    qed
  qed
qed

lemma scan_min_1:
  "maj < length ts \<Longrightarrow>
   scan_min s path maj 1 ts =
     (Suc (length (titleset_sizes s path maj)), ts[maj := ts ! maj + aggregate_size s path maj])"
  using scan_min_eq [of 1 maj ts s path]
  by (simp add: titleset_sizes_def aggregate_size_def MAX_VTS_MIN_def)

lemma titleset_sizes_Nil: "titleset_sizes s path maj = [] \<longleftrightarrow> lstat s (vob_path path maj 1) = None"
  by (simp add: titleset_sizes_def eval_nat_numeral split: option.splits)

lemma scan_maj_eq:
  "maj \<le> MAX_VTS_MAJ \<Longrightarrow> length ts = MAX_VTS_MAJ \<Longrightarrow> \<forall>m. maj \<le> m \<and> m < MAX_VTS_MAJ \<longrightarrow> ts ! m = 0 \<Longrightarrow>
   scan_maj s path maj ts lm ls =
     select_longest s path (titlesets_from s path maj (MAX_VTS_MAJ - maj)) (lm, ls)"
proof (induction s path maj ts lm ls rule: scan_maj.induct)
  case (1 s path maj ts lm ls)
  show ?case
  proof (cases "maj < MAX_VTS_MAJ")
    case False
    with "1.prems" show ?thesis
      by (simp add: scan_maj.simps)
  next
    case True
    then obtain k where k: "MAX_VTS_MAJ - maj = Suc k" "MAX_VTS_MAJ - Suc maj = k"
      by (cases "MAX_VTS_MAJ - maj") auto
    let ?ts = "ts[maj := ts ! maj + aggregate_size s path maj]"
    have sm: "scan_min s path maj 1 ts = (Suc (length (titleset_sizes s path maj)), ?ts)"
      using scan_min_1 [of maj ts s path] True "1.prems" by simp
    have at: "?ts ! maj = aggregate_size s path maj"
      using True "1.prems" by simp
    have len: "length ?ts = MAX_VTS_MAJ" using "1.prems" by simp
    have zero: "\<forall>m. Suc maj \<le> m \<and> m < MAX_VTS_MAJ \<longrightarrow> ?ts ! m = 0"
      using "1.prems" by simp
    show ?thesis
    proof (cases "lstat s (vob_path path maj 1)")
      case None
      then have "titleset_sizes s path maj = []" by (simp add: titleset_sizes_Nil)
      with True sm None k show ?thesis
        by (subst scan_maj.simps) simp
    next
      case (Some st)
      then have ne: "Suc (length (titleset_sizes s path maj)) \<noteq> 1"
        using titleset_sizes_Nil [of s path maj] by simp
      show ?thesis
      proof (cases "aggregate_size s path maj > ls")
        case gt: True
        have "scan_maj s path (Suc maj) ?ts maj (?ts ! maj) =
              select_longest s path (titlesets_from s path (Suc maj) (MAX_VTS_MAJ - Suc maj)) (maj, ?ts ! maj)"
          using "1.IH"(1)[OF True sm [symmetric] ne] gt at True len zero by simp
        with True sm ne gt at Some k show ?thesis
          by (subst scan_maj.simps) simp
      next
        case ngt: False
        have "scan_maj s path (Suc maj) ?ts lm ls =
              select_longest s path (titlesets_from s path (Suc maj) (MAX_VTS_MAJ - Suc maj)) (lm, ls)"
          using "1.IH"(2)[OF True sm [symmetric] ne] ngt at True len zero by simp
        with True sm ne ngt at Some k show ?thesis
          by (subst scan_maj.simps) simp
      qed
    qed
  qed
qed

lemma set_titlesets_from:
  "m \<in> set (titlesets_from s path maj k) \<longleftrightarrow>
     maj \<le> m \<and> m < maj + k \<and> (\<forall>j. maj \<le> j \<and> j \<le> m \<longrightarrow> lstat s (vob_path path j 1) \<noteq> None)"
proof (induction k arbitrary: maj)
  case 0
  then show ?case by simp
next
  case (Suc k)
  show ?case
  proof (cases "lstat s (vob_path path maj 1)")
    case None
    then show ?thesis by auto
  next
    case (Some st)
    have split: "(\<forall>j. maj \<le> j \<and> j \<le> m \<longrightarrow> lstat s (vob_path path j 1) \<noteq> None) \<longleftrightarrow>
                 (\<forall>j. Suc maj \<le> j \<and> j \<le> m \<longrightarrow> lstat s (vob_path path j 1) \<noteq> None)"
      using Some by (metis Suc_leI le_neq_implies_less option.distinct(1) Suc_leD)
    show ?thesis
    proof (cases "m = maj")
      case True
      with Some show ?thesis by auto
    next
      case False
      with Some Suc.IH [of "Suc maj"] split show ?thesis by auto
    qed
  qed
qed

lemma set_titlesets:
  "m \<in> set (titlesets s path) \<longleftrightarrow>
     1 \<le> m \<and> m < MAX_VTS_MAJ \<and> (\<forall>j. 1 \<le> j \<and> j \<le> m \<longrightarrow> lstat s (vob_path path j 1) \<noteq> None)"
  by (simp add: titlesets_def set_titlesets_from MAX_VTS_MAJ_def)

lemma select_longest_upper:
  "select_longest s path ms best = best' \<Longrightarrow>
   snd best \<le> snd best' \<and> (\<forall>m\<in>set ms. aggregate_size s path m \<le> snd best')"
proof (induction ms arbitrary: best)
  case Nil
  then show ?case by simp
next
  case (Cons m ms)
  show ?case
  proof (cases "aggregate_size s path m > snd best")
    case True
    with Cons.prems have "select_longest s path ms (m, aggregate_size s path m) = best'" by simp
    from Cons.IH [OF this] True show ?thesis by auto
  next
    case False
    with Cons.prems have "select_longest s path ms best = best'" by simp
    from Cons.IH [OF this] False show ?thesis by auto
  qed
qed

lemma select_longest_cases:
  "select_longest s path ms best = best' \<Longrightarrow>
   (best' = best \<and> (\<forall>m\<in>set ms. aggregate_size s path m \<le> snd best)) \<or>
   (fst best' \<in> set ms \<and> snd best' = aggregate_size s path (fst best') \<and> snd best < snd best')"
proof (induction ms arbitrary: best)
  case Nil
  then show ?case by simp
next
  case (Cons m ms)
  show ?case
  proof (cases "aggregate_size s path m > snd best")
    case True
    with Cons.prems have sel: "select_longest s path ms (m, aggregate_size s path m) = best'" by simp
    from Cons.IH [OF sel] True show ?thesis by auto
  next
    case False
    with Cons.prems have "select_longest s path ms best = best'" by simp
    from Cons.IH [OF this] False show ?thesis by auto
  qed
qed

lemma scan_videots_eq:
  "dvdwrap_scan_videots s path =
     (case select_longest s path (titlesets s path) (0, 0) of
        (longest_maj, longest_size) \<Rightarrow>
          if longest_maj \<noteq> 0 then Some (longest_maj, longest_size) else None)"
  unfolding dvdwrap_scan_videots_def titlesets_def
  by (subst scan_maj_eq) (simp_all add: MAX_VTS_MAJ_def)

lemma scan_None_iff:
  "dvdwrap_scan_videots s path = None \<longleftrightarrow> (\<forall>m\<in>set (titlesets s path). aggregate_size s path m = 0)"
proof -
  obtain lm ls where sel: "select_longest s path (titlesets s path) (0, 0) = (lm, ls)"
    by (cases "select_longest s path (titlesets s path) (0, 0)")
  have notin: "0 \<notin> set (titlesets s path)" by (simp add: set_titlesets)
  from select_longest_cases [OF sel] select_longest_upper [OF sel] notin
  show ?thesis
    by (auto simp: scan_videots_eq sel word_gt_0)
qed

lemma scan_Some:
  assumes "dvdwrap_scan_videots s path = Some (maj, tot)"
  shows "maj \<in> set (titlesets s path)" and "tot = aggregate_size s path maj" and "0 < tot"
    and "\<forall>m\<in>set (titlesets s path). aggregate_size s path m \<le> tot"
proof -
  obtain lm ls where sel: "select_longest s path (titlesets s path) (0, 0) = (lm, ls)"
    by (cases "select_longest s path (titlesets s path) (0, 0)")
  with assms have eq: "lm = maj" "ls = tot" "maj \<noteq> 0"
    by (auto simp: scan_videots_eq split: if_splits)
  from select_longest_cases [OF sel] select_longest_upper [OF sel] eq
  show "maj \<in> set (titlesets s path)" and "tot = aggregate_size s path maj" and "0 < tot"
    and "\<forall>m\<in>set (titlesets s path). aggregate_size s path m \<le> tot"
    by auto
qed

lemma segment_sizes_eq:
  "length szs \<le> k \<Longrightarrow>
   \<forall>i<length szs. map_option st_size (lstat s (vob_path path maj (mn + i))) = Some (szs ! i) \<Longrightarrow>
   (length szs < k \<longrightarrow> lstat s (vob_path path maj (mn + length szs)) = None) \<Longrightarrow>
   segment_sizes s path maj mn k = szs"
proof (induction szs arbitrary: mn k)
  case Nil
  then show ?case by (cases k) auto
next
  case (Cons z zs)
  then obtain k' where k: "k = Suc k'" by (cases k) auto
  from Cons.prems(2) [rule_format, of 0] obtain st where
    st: "lstat s (vob_path path maj mn) = Some st" "st_size st = z"
    by auto
  have "segment_sizes s path maj (Suc mn) k' = zs"
  proof (rule Cons.IH)
    show "length zs \<le> k'" using Cons.prems(1) k by simp
    show "\<forall>i<length zs. map_option st_size (lstat s (vob_path path maj (Suc mn + i))) = Some (zs ! i)"
    proof (intro allI impI)
      fix i assume "i < length zs"
      with Cons.prems(2) [rule_format, of "Suc i"] show
        "map_option st_size (lstat s (vob_path path maj (Suc mn + i))) = Some (zs ! i)"
        by simp
    qed
    show "length zs < k' \<longrightarrow> lstat s (vob_path path maj (Suc mn + length zs)) = None"
      using Cons.prems(3) k by simp
  qed
  with st k show ?case by simp
qed

subsection \<open>When the scan finds nothing\<close>

text \<open>
  Claim C5, as the code has it. The scan walks the major numbers from 1 upward and leaves
  at the first one that has no segment of minor number 1 (or at \<open>MAX_VTS_MAJ\<close>); for each
  major number of that run it sums the sizes from minor number 1 up to the first missing
  one. It fails (NotFound) exactly when every titleset of the run has aggregate size 0,
  so in particular when major number 1 has no segment; when it succeeds, it returns a
  titleset of the run with its aggregate size, which is not 0.
\<close>

theorem scan_not_found_iff:
  "(dvdwrap_scan_videots s path = None \<longleftrightarrow>
      (\<forall>m. 1 \<le> m \<and> m < MAX_VTS_MAJ \<and>
           (\<forall>j. 1 \<le> j \<and> j \<le> m \<longrightarrow> lstat s (vob_path path j 1) \<noteq> None) \<longrightarrow>
           aggregate_size s path m = 0)) \<and>
   (\<forall>maj tot. dvdwrap_scan_videots s path = Some (maj, tot) \<longrightarrow>
      1 \<le> maj \<and> maj < MAX_VTS_MAJ \<and>
      (\<forall>j. 1 \<le> j \<and> j \<le> maj \<longrightarrow> lstat s (vob_path path j 1) \<noteq> None) \<and>
      tot = aggregate_size s path maj \<and> 0 < tot)"
proof (intro conjI allI impI)
  show "dvdwrap_scan_videots s path = None \<longleftrightarrow>
      (\<forall>m. 1 \<le> m \<and> m < MAX_VTS_MAJ \<and>
           (\<forall>j. 1 \<le> j \<and> j \<le> m \<longrightarrow> lstat s (vob_path path j 1) \<noteq> None) \<longrightarrow>
           aggregate_size s path m = 0)"
    unfolding scan_None_iff by (simp add: set_titlesets Ball_def)
next
  fix maj tot
  assume sel: "dvdwrap_scan_videots s path = Some (maj, tot)"
  from scan_Some(1) [OF sel] show "1 \<le> maj" "maj < MAX_VTS_MAJ" by (simp_all add: set_titlesets)
  from scan_Some(1) [OF sel] show "lstat s (vob_path path j 1) \<noteq> None" if "1 \<le> j \<and> j \<le> maj" for j
    using that by (simp add: set_titlesets)
  from scan_Some(2,3) [OF sel] show "tot = aggregate_size s path maj" "0 < tot" .
qed

theorem scan_not_found_iff_witness:
  "dvdwrap_scan_videots roundtrip_os ''/src//dvd'' \<noteq> None \<and>
   lstat roundtrip_os (vob_path ''/src//dvd'' 1 1) \<noteq> None \<and>
   aggregate_size roundtrip_os ''/src//dvd'' 1 = 350"
proof -
  have a: "aggregate_size roundtrip_os ''/src//dvd'' 1 = 350"
    by (simp add: roundtrip_os_def spec_eval segment_sizes_unfold tree_eval path_eval vob_lengths)
  have b: "lstat roundtrip_os (vob_path ''/src//dvd'' 1 1) \<noteq> None"
    by (simp add: roundtrip_os_def tree_eval path_eval)
  have c: "aggregate_size roundtrip_os ''/src//dvd'' 1 \<noteq> 0" unfolding a by simp
  from scan_not_found_iff [of roundtrip_os "''/src//dvd''"] b c
  have "dvdwrap_scan_videots roundtrip_os ''/src//dvd'' \<noteq> None"
    by (metis le_refl le_antisym MAX_VTS_MAJ_def one_less_numeral_iff semiring_norm(76))
  with a b show ?thesis by simp
qed

text \<open>
  The claim as stated fails: here major number 2 has a segment, major number 1 has none,
  and the scan finds nothing.
\<close>

theorem scan_first_major_counterexample:
  "lstat no_first_major_os (vob_path ''/src//dvd'' 2 1) \<noteq> None \<and>
   dvdwrap_scan_videots no_first_major_os ''/src//dvd'' = None"
  by (simp add: no_first_major_os_def scan_eval tree_eval path_eval)

subsection \<open>Opening a handle\<close>

lemma segment_files_cong:
  "files s' = files s \<Longrightarrow> segment_files s' path maj mn k = segment_files s path maj mn k"
  by (induction k arbitrary: mn) (simp_all split: option.splits)

lemma sys_open_cases:
  assumes "sys_open s p = (fd, s1)"
  shows "(fd = - 1 \<and> s1 = s) \<or>
         (\<exists>n ino. fd = int n \<and> files s p = Some ino \<and> fdtab s n = None \<and>
            s1 = s\<lparr>fdtab := (fdtab s)(n \<mapsto> \<lparr>of_data = i_data ino, of_pos = 0\<rparr>)\<rparr>)"
  using assms
  by (auto simp: sys_open_def find_Some_iff split: option.splits if_splits)

lemma lstat_Some:
  "lstat s p = Some st \<Longrightarrow> \<exists>ino. files s p = Some ino \<and> st_size st = of_nat (length (i_data ino))"
  by (auto simp: lstat_def split: option.splits)

lemma lstat_None: "lstat s p = None \<longleftrightarrow> files s p = None"
  by (simp add: lstat_def split: option.splits)

lemma handle_ok_calloc: "handle_ok (calloc_fh\<lparr>total_size := 0\<rparr>) s []"
  by (simp add: handle_ok_def calloc_fh_def MAX_VTS_MIN_def)

lemma handle_ok_extend:
  assumes ok: "handle_ok h s segs"
    and mn: "mn = Suc (length segs)" "mn < MAX_VTS_MIN"
    and free: "fdtab s n = None"
  shows "handle_ok
           (h\<lparr>vts := (vts h)[mn := \<lparr>vts_fd = int n, vts_size = of_nat (length d)\<rparr>],
              total_size := total_size h + of_nat (length d)\<rparr>)
           (s\<lparr>fdtab := (fdtab s)(n \<mapsto> \<lparr>of_data = d, of_pos = 0\<rparr>)\<rparr>)
           (segs @ [d])"
  unfolding handle_ok_def
proof (intro conjI allI impI)
  from ok have len: "length (vts h) = MAX_VTS_MIN" by (simp add: handle_ok_def)
  let ?h = "h\<lparr>vts := (vts h)[mn := \<lparr>vts_fd = int n, vts_size = of_nat (length d)\<rparr>],
              total_size := total_size h + of_nat (length d)\<rparr>"
  let ?s = "s\<lparr>fdtab := (fdtab s)(n \<mapsto> \<lparr>of_data = d, of_pos = 0\<rparr>)\<rparr>"
  show "length (vts ?h) = MAX_VTS_MIN" using len by simp
  show "length (segs @ [d]) < MAX_VTS_MIN" using mn by simp
  show "total_size ?h = of_nat (length (concat (segs @ [d])))"
    using ok by (simp add: handle_ok_def)
  show "vts_size (vts ?h ! i) = 0" if "length (segs @ [d]) < i \<and> i < MAX_VTS_MIN" for i
    using that ok mn by (simp add: handle_ok_def)
  fix i assume i: "i < length (segs @ [d])"
  show "0 \<le> vts_fd (vts ?h ! Suc i)"
    using i ok mn len by (cases "i = length segs") (auto simp: handle_ok_def)
  show "vts_size (vts ?h ! Suc i) = of_nat (length ((segs @ [d]) ! i))"
    using i ok mn len by (cases "i = length segs") (auto simp: handle_ok_def nth_append)
  show "\<exists>f. fdtab ?s (nat (vts_fd (vts ?h ! Suc i))) = Some f \<and> of_data f = (segs @ [d]) ! i"
  proof (cases "i = length segs")
    case True
    with mn len show ?thesis by simp
  next
    case False
    with i have il: "i < length segs" by simp
    with ok obtain f where f: "fdtab s (nat (vts_fd (vts h ! Suc i))) = Some f" "of_data f = segs ! i"
      by (auto simp: handle_ok_def)
    with free have "nat (vts_fd (vts h ! Suc i)) \<noteq> n" by auto
    with f il mn show ?thesis by (simp add: nth_append)
  qed
qed

lemma vts_update_both:
  "(r :: dvdwrap_vts_t)\<lparr>vts_fd := a, vts_size := b\<rparr> = \<lparr>vts_fd = a, vts_size = b\<rparr>"
  by (cases r) simp

lemma open_loop_ok:
  "open_loop root maj mn h s = (True, h', s') \<Longrightarrow> handle_ok h s segs \<Longrightarrow>
   mn = Suc (length segs) \<Longrightarrow> k = MAX_VTS_MIN - mn \<Longrightarrow>
   handle_ok h' s' (segs @ segment_files s root maj mn k) \<and> files s' = files s"
proof (induction k arbitrary: mn h s segs)
  case 0
  then have "\<not> mn < MAX_VTS_MIN" by simp
  with "0.prems" show ?case by (simp add: open_loop.simps)
next
  case (Suc k)
  then have lt: "mn < MAX_VTS_MIN" and k: "k = MAX_VTS_MIN - Suc mn" by simp_all
  show ?case
  proof (cases "lstat s (vob_path root maj mn)")
    case None
    then have "files s (vob_path root maj mn) = None" by (simp add: lstat_None)
    moreover from None lt Suc.prems(1) have "h' = h" "s' = s" by (simp_all add: open_loop.simps)
    ultimately show ?thesis using Suc.prems(2) by simp
  next
    case (Some st)
    then obtain ino where ino: "files s (vob_path root maj mn) = Some ino"
      "st_size st = of_nat (length (i_data ino))"
      using lstat_Some by blast
    obtain fd s1 where op: "sys_open s (vob_path root maj mn) = (fd, s1)"
      by (cases "sys_open s (vob_path root maj mn)")
    let ?h2 = "h\<lparr>vts := (vts h)[mn := \<lparr>vts_fd = fd, vts_size = st_size st\<rparr>],
                  total_size := total_size h + st_size st\<rparr>"
    from Suc.prems(2) have len: "length (vts h) = MAX_VTS_MIN" by (simp add: handle_ok_def)
    have step: "open_loop root maj mn h s =
                  (if fd < 0 then (False, h\<lparr>vts := (vts h)[mn := (vts h ! mn)\<lparr>vts_fd := fd\<rparr>]\<rparr>, s1)
                   else open_loop root maj (Suc mn) ?h2 s1)"
      using lt Some op len by (subst open_loop.simps) (simp add: Let_def vts_update_both)
    with Suc.prems(1) have nonneg: "\<not> fd < 0" and rec: "open_loop root maj (Suc mn) ?h2 s1 = (True, h', s')"
      by (auto split: if_splits)
    from sys_open_cases [OF op] nonneg ino obtain n where
      n: "fd = int n" "fdtab s n = None"
        "s1 = s\<lparr>fdtab := (fdtab s)(n \<mapsto> \<lparr>of_data = i_data ino, of_pos = 0\<rparr>)\<rparr>"
      by auto
    have ok2: "handle_ok ?h2 s1 (segs @ [i_data ino])"
      using handle_ok_extend [OF Suc.prems(2) Suc.prems(3) lt n(2), of "i_data ino"] n ino by simp
    have fs: "files s1 = files s" using n by simp
    from Suc.IH [OF rec ok2 _ k] Suc.prems(3)
    have "handle_ok h' s' ((segs @ [i_data ino]) @ segment_files s1 root maj (Suc mn) k)"
      and "files s' = files s1" by simp_all
    with fs ino segment_files_cong [OF fs, of root maj "Suc mn" k] show ?thesis by simp
  qed
qed

lemma open_loop_titleset:
  assumes "open_loop root maj 1 (calloc_fh\<lparr>total_size := 0\<rparr>) s = (True, h', s')"
  shows "handle_ok h' s' (titleset_files s root maj)" and "files s' = files s"
  using open_loop_ok [OF assms handle_ok_calloc, of 9] 
  by (simp_all add: titleset_files_def MAX_VTS_MIN_def)

lemma dvdwrap_open_success:
  assumes "dvdwrap_open sourcepath path s0 = Done (0, Some h, s)"
  shows "\<exists>maj tot. has_extension (target_path sourcepath path) = Done True \<and>
           dvdwrap_scan_videots s0 (strip_extension (target_path sourcepath path)) = Some (maj, tot) \<and>
           mem_ok s0 \<and>
           open_loop (strip_extension (target_path sourcepath path)) maj 1
             (calloc_fh\<lparr>total_size := 0\<rparr>) s0 = (True, h, s)"
  using assms
  by (auto simp: dvdwrap_open_def Let_def ENOENT_def ENOMEM_def dvdwrap_release_def
           split: run.splits bool.splits option.splits if_splits prod.splits)

lemma dvdwrap_open_handle_ok:
  assumes "dvdwrap_open sourcepath path s0 = Done (0, Some h, s)"
  shows "\<exists>segs. handle_ok h s segs \<and> concat segs = exposed_data sourcepath path s0"
proof -
  from dvdwrap_open_success [OF assms] obtain maj tot where
    sc: "dvdwrap_scan_videots s0 (strip_extension (target_path sourcepath path)) = Some (maj, tot)"
    and ol: "open_loop (strip_extension (target_path sourcepath path)) maj 1
               (calloc_fh\<lparr>total_size := 0\<rparr>) s0 = (True, h, s)"
    by blast
  from open_loop_titleset(1) [OF ol] sc show ?thesis
    by (auto simp: exposed_data_def titleset_data_def)
qed

subsection \<open>Reading\<close>

lemma concat_split_nth:
  "i < length xs \<Longrightarrow> concat xs = concat (take i xs) @ xs ! i @ concat (drop (Suc i) xs)"
proof -
  assume "i < length xs"
  then have "xs = take i xs @ xs ! i # drop (Suc i) xs" by (rule id_take_nth_drop)
  then have "concat xs = concat (take i xs @ xs ! i # drop (Suc i) xs)" by simp
  then show ?thesis by simp
qed

lemma length_concat_split:
  "i < length xs \<Longrightarrow>
   length (concat xs) = length (concat (take i xs)) + length (xs ! i) + length (concat (drop (Suc i) xs))"
  using concat_split_nth [of i xs] by (metis length_append add.assoc)

lemma drop_concat_nth:
  assumes "i < length xs" "n \<le> length (xs ! i)"
  shows "drop (length (concat (take i xs)) + n) (concat xs) = drop n (xs ! i) @ concat (drop (Suc i) xs)"
proof -
  have "drop (length (concat (take i xs)) + n) (concat xs) =
        drop (length (concat (take i xs)) + n) (concat (take i xs) @ xs ! i @ concat (drop (Suc i) xs))"
    using concat_split_nth [OF assms(1)] by simp
  also have "\<dots> = drop n (xs ! i @ concat (drop (Suc i) xs))" by simp
  also have "\<dots> = drop n (xs ! i) @ concat (drop (Suc i) xs)" using assms(2) by simp
  finally show ?thesis .
qed

lemma handle_ok_slot:
  assumes "handle_ok h s segs" "length (concat segs) < 2 ^ 63" "i < length segs"
  shows "0 \<le> vts_fd (vts h ! Suc i)"
    and "\<exists>f. fdtab s (nat (vts_fd (vts h ! Suc i))) = Some f \<and> of_data f = segs ! i"
    and "unat (vts_size (vts h ! Suc i)) = length (segs ! i)"
    and "Suc i < MAX_VTS_MIN"
    and "length (segs ! i) < 2 ^ 63"
proof -
  from assms(1,3) show "0 \<le> vts_fd (vts h ! Suc i)"
    and "\<exists>f. fdtab s (nat (vts_fd (vts h ! Suc i))) = Some f \<and> of_data f = segs ! i"
    and "Suc i < MAX_VTS_MIN"
    by (auto simp: handle_ok_def)
  have "length (segs ! i) \<le> length (concat segs)"
    using length_concat_split [OF assms(3)] by simp
  with assms(2) show b: "length (segs ! i) < 2 ^ 63" by simp
  then have "length (segs ! i) < 2 ^ 64" by (rule less_trans) simp
  moreover from assms(1,3) have "vts_size (vts h ! Suc i) = of_nat (length (segs ! i))"
    by (auto simp: handle_ok_def)
  ultimately show "unat (vts_size (vts h ! Suc i)) = length (segs ! i)"
    by (simp only: unat_of_nat_64)
qed

lemma handle_ok_total:
  assumes "handle_ok h s segs" "length (concat segs) < 2 ^ 63"
  shows "unat (total_size h) = length (concat segs)"
proof -
  from assms(2) have "length (concat segs) < 2 ^ 64" by (rule less_trans) simp
  moreover from assms(1) have "total_size h = of_nat (length (concat segs))"
    by (simp add: handle_ok_def)
  ultimately show ?thesis by (simp only: unat_of_nat_64)
qed

lemma locate_found:
  assumes ok: "handle_ok h s segs" and bound: "length (concat segs) < 2 ^ 63"
  shows "n = length segs - k \<Longrightarrow> k \<le> length segs \<Longrightarrow> unat off < length (concat (drop k segs)) \<Longrightarrow>
    \<exists>i off'. locate h (Suc k) off = (Suc i, off') \<and> k \<le> i \<and> i < length segs \<and>
      unat off' < length (segs ! i) \<and>
      length (concat (take i segs)) + unat off' = length (concat (take k segs)) + unat off"
proof (induction n arbitrary: k off)
  case 0
  then show ?case by simp
next
  case (Suc n)
  then have k: "k < length segs" by simp
  note slot = handle_ok_slot [OF ok bound k]
  have dr: "drop k segs = segs ! k # drop (Suc k) segs"
    using k by (simp add: Cons_nth_drop_Suc)
  show ?case
  proof (cases "off < vts_size (vts h ! Suc k)")
    case True
    then have "unat off < length (segs ! k)"
      by (simp only: word_less_nat_alt slot(3))
    moreover have "locate h (Suc k) off = (Suc k, off)"
      using True slot(4) by (subst locate.simps) simp
    ultimately show ?thesis using k by auto
  next
    case False
    then have le: "vts_size (vts h ! Suc k) \<le> off" by simp
    then have ge: "length (segs ! k) \<le> unat off"
      by (simp only: word_le_nat_alt slot(3))
    have un: "unat (off - vts_size (vts h ! Suc k)) = unat off - length (segs ! k)"
      using le by (simp only: unat_sub slot(3))
    have step: "locate h (Suc k) off = locate h (Suc (Suc k)) (off - vts_size (vts h ! Suc k))"
      using False slot(4) by (subst locate.simps) simp
    have lt: "unat (off - vts_size (vts h ! Suc k)) < length (concat (drop (Suc k) segs))"
      using Suc.prems(3) ge un dr by simp
    have n: "n = length segs - Suc k" using Suc.prems(1) by simp
    have sk: "Suc k \<le> length segs" using k by simp
    from Suc.IH [OF n sk lt]
    obtain i off' where r: "locate h (Suc (Suc k)) (off - vts_size (vts h ! Suc k)) = (Suc i, off')"
      "Suc k \<le> i" "i < length segs" "unat off' < length (segs ! i)"
      "length (concat (take i segs)) + unat off' =
         length (concat (take (Suc k) segs)) + unat (off - vts_size (vts h ! Suc k))"
      by auto
    have "length (concat (take (Suc k) segs)) = length (concat (take k segs)) + length (segs ! k)"
      using k by (simp add: take_Suc_conv_app_nth)
    with r(5) un ge have "length (concat (take i segs)) + unat off' = length (concat (take k segs)) + unat off"
      by simp
    with r step show ?thesis by auto
  qed
qed

lemma locate_end:
  assumes ok: "handle_ok h s segs" and bound: "length (concat segs) < 2 ^ 63"
  shows "n = MAX_VTS_MIN - j \<Longrightarrow> 1 \<le> j \<Longrightarrow> j \<le> MAX_VTS_MIN \<Longrightarrow>
    length (concat (drop (j - 1) segs)) \<le> unat off \<Longrightarrow> fst (locate h j off) = MAX_VTS_MIN"
proof (induction n arbitrary: j off)
  case 0
  then have "j = MAX_VTS_MIN" by simp
  then show ?case by (subst locate.simps) simp
next
  case (Suc n)
  then have j: "j < MAX_VTS_MIN" by simp
  obtain k where k: "j = Suc k" using Suc.prems(2) by (cases j) auto
  show ?case
  proof (cases "k < length segs")
    case True
    note slot = handle_ok_slot [OF ok bound True]
    have dr: "drop k segs = segs ! k # drop (Suc k) segs"
      using True by (simp add: Cons_nth_drop_Suc)
    with Suc.prems(4) k have ge: "length (segs ! k) \<le> unat off" by simp
    then have le: "vts_size (vts h ! Suc k) \<le> off"
      by (simp only: word_le_nat_alt slot(3))
    then have nl: "\<not> off < vts_size (vts h ! Suc k)" by simp
    have un: "unat (off - vts_size (vts h ! Suc k)) = unat off - length (segs ! k)"
      using le by (simp only: unat_sub slot(3))
    have step: "locate h j off = locate h (Suc j) (off - vts_size (vts h ! Suc k))"
      using nl j k by (subst locate.simps) simp
    have "length (concat (drop (Suc j - 1) segs)) \<le> unat (off - vts_size (vts h ! Suc k))"
      using Suc.prems(4) k dr un by simp
    moreover have "n = MAX_VTS_MIN - Suc j" "1 \<le> Suc j" "Suc j \<le> MAX_VTS_MIN"
      using Suc.prems(1) j by simp_all
    ultimately have "fst (locate h (Suc j) (off - vts_size (vts h ! Suc k))) = MAX_VTS_MIN"
      using Suc.IH by blast
    with step show ?thesis by simp
  next
    case False
    with ok j k have z: "vts_size (vts h ! j) = 0" by (simp add: handle_ok_def)
    have step: "locate h j off = locate h (Suc j) off"
      using j z by (subst locate.simps) simp
    have "length (concat (drop (Suc j - 1) segs)) \<le> unat off"
      using False k by simp
    moreover have "n = MAX_VTS_MIN - Suc j" "1 \<le> Suc j" "Suc j \<le> MAX_VTS_MIN"
      using Suc.prems(1) j by simp_all
    ultimately have "fst (locate h (Suc j) off) = MAX_VTS_MIN"
      using Suc.IH by blast
    with step show ?thesis by simp
  qed
qed

lemma lseek_read:
  assumes fd: "0 \<le> fd" and f: "fdtab s (nat fd) = Some f" and off: "unat off < 2 ^ 63"
  shows "sys_read (snd (sys_lseek s fd off)) fd cnt =
           (of_nat (length (take (min (unat cnt) MAX_RW_COUNT) (drop (unat off) (of_data f)))),
            take (min (unat cnt) MAX_RW_COUNT) (drop (unat off) (of_data f)),
            s\<lparr>fdtab := (fdtab s)(nat fd \<mapsto>
                 f\<lparr>of_pos := unat off +
                        length (take (min (unat cnt) MAX_RW_COUNT) (drop (unat off) (of_data f)))\<rparr>)\<rparr>)"
proof -
  have sg: "sint off = int (unat off)" using off by (rule sint_eq_unat_64)
  then have nn: "0 \<le> sint off" by simp
  have ls: "snd (sys_lseek s fd off) = s\<lparr>fdtab := (fdtab s)(nat fd \<mapsto> f\<lparr>of_pos := unat off\<rparr>)\<rparr>"
    using fd f nn sg by (simp add: sys_lseek_def)
  show ?thesis
    unfolding ls using fd by (simp add: sys_read_def Let_def)
qed

lemma take_length_take: "take (length (take m xs)) xs = take m xs"
  by (cases "m \<le> length xs") (simp_all add: min_def)

lemma handle_ok_pos:
  assumes "handle_ok h s segs" "fdtab s n = Some f"
  shows "handle_ok h (s\<lparr>fdtab := (fdtab s)(n \<mapsto> f\<lparr>of_pos := p\<rparr>)\<rparr>) segs"
  using assms unfolding handle_ok_def by auto

lemma read_loop_ok:
  assumes bound: "length (concat segs) < 2 ^ 63"
  shows "r = min (unat sz - unat tot) (length (concat segs) - unat offset) \<Longrightarrow>
    handle_ok h s segs \<Longrightarrow> unat offset \<le> length (concat segs) \<Longrightarrow> unat tot \<le> unat sz \<Longrightarrow>
    \<exists>s'. read_loop h sz offset tot buf s =
            Some (int_of_size (tot + of_nat r), buf @ take r (drop (unat offset) (concat segs)), s')
         \<and> handle_ok h s' segs \<and> files s' = files s"
proof (induction r arbitrary: tot offset buf s rule: less_induct)
  case (less r)
  note ok = less.prems(2)
  let ?T = "length (concat segs)"
  show ?case
  proof (cases "tot < sz")
    case False
    then have "unat sz \<le> unat tot" by (simp add: word_less_nat_alt)
    with less.prems(1) have "r = 0" by simp
    moreover have "read_loop h sz offset tot buf s = Some (int_of_size tot, buf, s)"
      using False by (subst read_loop.simps) simp
    ultimately show ?thesis using ok by simp
  next
    case True
    then have lt: "unat tot < unat sz" by (simp add: word_less_nat_alt)
    show ?thesis
    proof (cases "unat offset = ?T")
      case True
      then have "length (concat (drop (1 - 1) segs)) \<le> unat offset" by simp
      from locate_end [OF ok bound refl _ _ this]
      have "fst (locate h 1 offset) = MAX_VTS_MIN" by (simp add: MAX_VTS_MIN_def)
      then obtain o' where "locate h 1 offset = (MAX_VTS_MIN, o')"
        by (cases "locate h 1 offset") auto
      then have "read_loop h sz offset tot buf s = Some (int_of_size tot, buf, s)"
        using \<open>tot < sz\<close> by (subst read_loop.simps) simp
      moreover from True less.prems(1) have "r = 0" by simp
      ultimately show ?thesis using ok by simp
    next
      case False
      with less.prems(3) have inside: "unat offset < length (concat (drop 0 segs))" by simp
      from locate_found [OF ok bound refl _ inside]
      obtain i off' where loc: "locate h (Suc 0) offset = (Suc i, off')" and i: "i < length segs"
        and off': "unat off' < length (segs ! i)"
        and pos: "length (concat (take i segs)) + unat off' = unat offset"
        by auto
      note slot = handle_ok_slot [OF ok bound i]
      from slot(2) obtain f where f: "fdtab s (nat (vts_fd (vts h ! Suc i))) = Some f"
        "of_data f = segs ! i" by blast
      let ?fd = "vts_fd (vts h ! Suc i)"
      let ?w = "vts_size (vts h ! Suc i)"
      let ?cnt = "if sz - tot > ?w - off' then ?w - off' else sz - tot"
      have off63: "unat off' < 2 ^ 63" using off' slot(5) by (rule less_trans)
      have wle: "off' \<le> ?w" using off' by (simp only: word_le_nat_alt slot(3))
      have uw: "unat (?w - off') = length (segs ! i) - unat off'"
        using wle by (simp only: unat_sub slot(3))
      have tle: "tot \<le> sz" using less.prems(4) by (simp only: word_le_nat_alt)
      have ust: "unat (sz - tot) = unat sz - unat tot"
        using tle by (simp only: unat_sub)
      have ucnt: "unat ?cnt = min (unat sz - unat tot) (length (segs ! i) - unat off')"
        using uw ust by (simp add: word_less_nat_alt min_def)
      define got where "got = take (min (unat ?cnt) MAX_RW_COUNT) (drop (unat off') (segs ! i))"
      define g where "g = length got"
      have g_eq: "g = min (min (unat sz - unat tot) (length (segs ! i) - unat off')) MAX_RW_COUNT"
        unfolding g_def got_def ucnt by (simp add: min.commute min.left_commute)
      have g_pos: "0 < g" using g_eq lt off' by (simp add: MAX_RW_COUNT_def)
      have g_cap: "g < 2 ^ 31" using g_eq by (simp add: MAX_RW_COUNT_def)
      have g_seg: "g \<le> length (segs ! i) - unat off'" using g_eq by arith
      have g_sz: "g \<le> unat sz - unat tot" using g_eq by arith
      from lseek_read [OF slot(1) f(1) off63, of ?cnt]
      obtain s2 where rd: "sys_read (snd (sys_lseek s ?fd off')) ?fd ?cnt = (of_nat g, got, s2)"
        and s2: "s2 = s\<lparr>fdtab := (fdtab s)(nat ?fd \<mapsto> f\<lparr>of_pos := unat off' + g\<rparr>)\<rparr>"
        unfolding g_def got_def f(2) by simp
      have ok2: "handle_ok h s2 segs" unfolding s2 using ok f(1) by (rule handle_ok_pos)
      have fs2: "files s2 = files s" unfolding s2 by simp
      have g64: "g < 2 ^ 64" using g_cap by (rule less_trans) simp
      have ug: "unat (of_nat g :: 64 word) = g" using g64 by (rule unat_of_nat_64)
      have rc: "int_of_size (of_nat g) = int g"
        using int_of_size_small [of "of_nat g"] g_cap ug by simp
      have woi: "(word_of_int (int_of_size (of_nat g)) :: 64 word) = of_nat g"
        unfolding rc by simp
      have ne: "Suc i \<noteq> MAX_VTS_MIN" using slot(4) by simp
      have step: "read_loop h sz offset tot buf s =
                  read_loop h sz (offset + of_nat g) (tot + of_nat g) (buf @ got) s2"
        using \<open>tot < sz\<close> loc ne rd rc woi by (subst read_loop.simps) simp
      have Tle: "length (concat (take i segs)) + length (segs ! i) \<le> ?T"
        using length_concat_split [OF i] by simp
      have offg: "unat offset + g \<le> ?T" using pos g_seg off' Tle by simp
      have T64: "?T < 2 ^ 64" using bound by (rule less_trans) simp
      have uoff: "unat (offset + of_nat g) = unat offset + g"
        using offg T64 by (intro unat_add_64) simp
      have sz64: "unat sz < 2 ^ 64" by (rule order_less_le_trans [OF unsigned_less]) simp
      have utot: "unat (tot + of_nat g) = unat tot + g"
        using g_sz lt sz64 by (intro unat_add_64) simp
      define r' where "r' = min (unat sz - unat (tot + of_nat g)) (?T - unat (offset + of_nat g))"
      have r'_eq: "r' = r - g" unfolding r'_def uoff utot less.prems(1) by simp
      have g_r: "g \<le> r" using less.prems(1) g_sz offg by simp
      have r'_lt: "r' < r" using r'_eq g_pos g_r by simp
      have "\<exists>s'. read_loop h sz (offset + of_nat g) (tot + of_nat g) (buf @ got) s2 =
              Some (int_of_size (tot + of_nat g + of_nat r'),
                    (buf @ got) @ take r' (drop (unat (offset + of_nat g)) (concat segs)), s')
            \<and> handle_ok h s' segs \<and> files s' = files s2"
      proof (rule less.IH [OF r'_lt])
        show "r' = min (unat sz - unat (tot + of_nat g)) (?T - unat (offset + of_nat g))"
          by (fact r'_def)
        show "handle_ok h s2 segs" by (fact ok2)
        show "unat (offset + of_nat g) \<le> ?T" using uoff offg by simp
        show "unat (tot + of_nat g) \<le> unat sz" using utot g_sz lt by simp
      qed
      then obtain s' where
        res: "read_loop h sz (offset + of_nat g) (tot + of_nat g) (buf @ got) s2 =
              Some (int_of_size (tot + of_nat g + of_nat r'),
                    (buf @ got) @ take r' (drop (unat (offset + of_nat g)) (concat segs)), s')"
        and ok': "handle_ok h s' segs" and fs': "files s' = files s2" by blast
      have dr: "drop (unat offset) (concat segs) = drop (unat off') (segs ! i) @ concat (drop (Suc i) segs)"
        using drop_concat_nth [OF i, of "unat off'"] off' pos by simp
      have "got = take g (drop (unat off') (segs ! i))"
        unfolding g_def got_def by (simp only: take_length_take)
      then have got_eq: "got = take g (drop (unat offset) (concat segs))"
        unfolding dr using g_seg by simp
      have "take r (drop (unat offset) (concat segs)) =
            take g (drop (unat offset) (concat segs)) @ take (r - g) (drop (unat offset + g) (concat segs))"
        using g_r take_add [of g "r - g" "drop (unat offset) (concat segs)"] by (simp add: add.commute)
      then have bytes: "(buf @ got) @ take r' (drop (unat (offset + of_nat g)) (concat segs)) =
                        buf @ take r (drop (unat offset) (concat segs))"
        unfolding uoff r'_eq got_eq by simp
      have "(of_nat g :: 64 word) + of_nat r' = of_nat r"
        unfolding r'_eq using g_r by (simp flip: of_nat_add)
      then have tot_eq: "tot + of_nat g + of_nat r' = tot + of_nat r" by (simp add: add.assoc)
      from res show ?thesis
        unfolding step bytes tot_eq using ok' fs' fs2 by simp
    qed
  qed
qed

lemma dvdwrap_read_ok:
  assumes ok: "handle_ok h s segs" and bound: "length (concat segs) < 2 ^ 63"
  shows "\<exists>s'. dvdwrap_read h sz offset s =
            Some (int_of_size (of_nat (length (take (unat sz) (drop (unat offset) (concat segs))))),
                  take (unat sz) (drop (unat offset) (concat segs)), s')
          \<and> handle_ok h s' segs"
proof (cases "offset \<ge> total_size h")
  case True
  then have "length (concat segs) \<le> unat offset"
    by (simp only: word_le_nat_alt handle_ok_total [OF ok bound])
  then have tk: "take (unat sz) (drop (unat offset) (concat segs)) = []" by simp
  have "dvdwrap_read h sz offset s = Some (0, [], s)"
    using True by (simp add: dvdwrap_read_def)
  then show ?thesis unfolding tk using ok by (simp add: int_of_size_def)
next
  case False
  then have lt: "unat offset < length (concat segs)"
    by (simp only: not_le word_less_nat_alt handle_ok_total [OF ok bound])
  define r where "r = min (unat sz - unat (0 :: 64 word)) (length (concat segs) - unat offset)"
  have le: "unat offset \<le> length (concat segs)" using lt by simp
  have z: "unat (0 :: 64 word) \<le> unat sz" by simp
  from read_loop_ok [where buf = "[]", OF bound r_def ok le z]
  obtain s' where rl: "read_loop h sz offset 0 [] s =
      Some (int_of_size (0 + of_nat r), [] @ take r (drop (unat offset) (concat segs)), s')"
    and ok': "handle_ok h s' segs" by auto
  have tk: "take r (drop (unat offset) (concat segs)) = take (unat sz) (drop (unat offset) (concat segs))"
    unfolding r_def by (simp add: min_def)
  have len: "length (take (unat sz) (drop (unat offset) (concat segs))) = r"
    unfolding r_def by simp
  have "dvdwrap_read h sz offset s = read_loop h sz offset 0 [] s"
    using False by (simp add: dvdwrap_read_def)
  with rl have "dvdwrap_read h sz offset s =
      Some (int_of_size (of_nat r), take r (drop (unat offset) (concat segs)), s')" by simp
  with ok' show ?thesis unfolding len unfolding tk [symmetric] by blast
qed

lemma session_handle_ok:
  assumes "session sourcepath path s0 h s" "length (exposed_data sourcepath path s0) < 2 ^ 63"
  shows "\<exists>segs. handle_ok h s segs \<and> concat segs = exposed_data sourcepath path s0"
  using assms
proof (induction rule: session.induct)
  case (opened h s)
  then show ?case by (simp add: dvdwrap_open_handle_ok)
next
  case (read h s sz offset rc bytes s')
  then obtain segs where segs: "handle_ok h s segs" "concat segs = exposed_data sourcepath path s0"
    by blast
  with read.prems have "length (concat segs) < 2 ^ 63" by simp
  from dvdwrap_read_ok [OF segs(1) this, of sz offset] read.hyps(2) segs(2)
  show ?case by auto
qed

subsection \<open>The round trip example\<close>

lemma roundtrip_scan: "dvdwrap_scan_videots roundtrip_os ''/src//dvd'' = Some (1, 350)"
  by (simp add: roundtrip_os_def scan_eval tree_eval path_eval vob_lengths)

lemma roundtrip_data:
  "exposed_data ''/src'' ''/dvd.mpg'' roundtrip_os = first_vob @ second_vob @ third_vob"
proof -
  have tp: "strip_extension (target_path ''/src'' ''/dvd.mpg'') = ''/src//dvd''"
    by (simp add: path_eval)
  have td: "titleset_data roundtrip_os ''/src//dvd'' 1 = first_vob @ second_vob @ third_vob"
    by (simp add: titleset_data_def titleset_files_def segment_files_unfold roundtrip_os_def tree_eval path_eval)
  show ?thesis
    unfolding exposed_data_def tp roundtrip_scan option.case prod.case by (fact td)
qed

lemma roundtrip_open_loop:
  "\<exists>h s. open_loop ''/src//dvd'' 1 1 (calloc_fh\<lparr>total_size := 0\<rparr>) roundtrip_os = (True, h, s)"
    by (simp add: roundtrip_os_def open_loop.simps sys_open_def calloc_fh_def Let_def tree_eval path_eval MAX_VTS_MIN_def upt_rec)

lemma roundtrip_open:
  "\<exists>h s. dvdwrap_open ''/src'' ''/dvd.mpg'' roundtrip_os = Done (0, Some h, s)"
proof -
  have tp: "target_path ''/src'' ''/dvd.mpg'' = ''/src//dvd.mpg''"
    by (simp add: path_eval)
  have ext: "has_extension ''/src//dvd.mpg'' = Done True" "strip_extension ''/src//dvd.mpg'' = ''/src//dvd''"
    by (simp_all add: path_eval)
  have mem: "mem_ok roundtrip_os" by (simp add: roundtrip_os_def tree_os_def)
  from roundtrip_open_loop obtain h s where
    "open_loop ''/src//dvd'' 1 1 (calloc_fh\<lparr>total_size := 0\<rparr>) roundtrip_os = (True, h, s)" by blast
  then show ?thesis
    unfolding dvdwrap_open_def tp Let_def ext roundtrip_scan run.case bool.case option.case prod.case
    using mem by simp
qed

subsection \<open>Byte-exact reads\<close>

text \<open>
  Claim C1. On an open handle (in the state after the open and any earlier reads), a
  read of \<open>sz\<close> bytes at \<open>offset\<close> returns, and stores in the buffer, exactly
  \<open>take sz (drop offset data)\<close>, where \<open>data\<close> is the concatenation of the segment files
  of the selected titleset in minor-number order: the bytes at that offset and length
  wherever the range lies with respect to the segment boundaries, cut at the end of the
  aggregate when the range runs past it. The call returns (the loop ends); the return
  value is the number of bytes, as far as an \<^verbatim>\<open>int\<close> holds it (below \<open>2 ^ 31\<close>). The
  aggregate is taken to fit an \<^verbatim>\<open>off_t\<close>.
\<close>

theorem read_is_concatenation:
  assumes "session sourcepath path s0 h s"
    and "length (exposed_data sourcepath path s0) < 2 ^ 63"
  shows "\<exists>rc s'. dvdwrap_read h sz offset s =
           Some (rc, take (unat sz) (drop (unat offset) (exposed_data sourcepath path s0)), s') \<and>
           rc = int_of_size (of_nat (min (unat sz) (length (exposed_data sourcepath path s0) - unat offset))) \<and>
           (min (unat sz) (length (exposed_data sourcepath path s0) - unat offset) < 2 ^ 31 \<longrightarrow>
              rc = int (min (unat sz) (length (exposed_data sourcepath path s0) - unat offset))) \<and>
           session sourcepath path s0 h s'"
proof -
  let ?D = "exposed_data sourcepath path s0"
  let ?n = "min (unat sz) (length ?D - unat offset)"
  from session_handle_ok [OF assms] obtain segs where
    segs: "handle_ok h s segs" "concat segs = ?D" by blast
  with assms(2) have b: "length (concat segs) < 2 ^ 63" by simp
  have len: "length (take (unat sz) (drop (unat offset) ?D)) = ?n" by simp
  from dvdwrap_read_ok [OF segs(1) b, of sz offset] obtain s' where
    rd: "dvdwrap_read h sz offset s =
           Some (int_of_size (of_nat ?n), take (unat sz) (drop (unat offset) ?D), s')"
    unfolding segs(2) len by blast
  have ses: "session sourcepath path s0 h s'"
    using assms(1) rd by (rule session.read)
  have small: "int_of_size (of_nat ?n) = int ?n" if "?n < 2 ^ 31"
  proof -
    from that have "?n < 2 ^ 64" by (rule less_trans) simp
    then have "unat (of_nat ?n :: 64 word) = ?n" by (rule unat_of_nat_64)
    with int_of_size_small [of "of_nat ?n"] that show ?thesis by simp
  qed
  from rd ses small show ?thesis by blast
qed

theorem read_is_concatenation_witness:
  "\<exists>h s s'. dvdwrap_open ''/src'' ''/dvd.mpg'' roundtrip_os = Done (0, Some h, s) \<and>
      dvdwrap_read h 200 250 s = Some (100, drop 150 second_vob @ third_vob, s')"
proof -
  from roundtrip_open obtain h s where
    op: "dvdwrap_open ''/src'' ''/dvd.mpg'' roundtrip_os = Done (0, Some h, s)" by blast
  then have ses: "session ''/src'' ''/dvd.mpg'' roundtrip_os h s" by (rule session.opened)
  have len: "length (exposed_data ''/src'' ''/dvd.mpg'' roundtrip_os) = 350"
    by (simp add: roundtrip_data vob_lengths)
  have bound: "length (exposed_data ''/src'' ''/dvd.mpg'' roundtrip_os) < 2 ^ 63"
    unfolding len by simp
  have bytes: "take (unat (200 :: 64 word)) (drop (unat (250 :: 64 word)) (exposed_data ''/src'' ''/dvd.mpg'' roundtrip_os))
               = drop 150 second_vob @ third_vob"
    by (simp add: roundtrip_data vob_lengths)
  have n: "min (unat (200 :: 64 word)) (length (exposed_data ''/src'' ''/dvd.mpg'' roundtrip_os) - unat (250 :: 64 word)) = 100"
    unfolding len by simp
  from read_is_concatenation [OF ses bound, of 200 250]
  obtain rc s' where "dvdwrap_read h 200 250 s = Some (rc, drop 150 second_vob @ third_vob, s')"
    and "rc = 100"
    unfolding bytes n by auto
  with op show ?thesis by blast
qed

subsection \<open>End of stream\<close>

text \<open>
  Claim C9. On an open handle with aggregate size \<open>T\<close>, a read at an offset of at least
  \<open>T\<close> returns 0 with no byte stored and the state unchanged, whatever the length.
\<close>

theorem read_past_end:
  assumes "session sourcepath path s0 h s"
    and "length (exposed_data sourcepath path s0) < 2 ^ 63"
    and "int (length (exposed_data sourcepath path s0)) \<le> sint offset"
  shows "dvdwrap_read h sz offset s = Some (0, [], s)"
proof -
  from session_handle_ok [OF assms(1,2)] obtain segs where
    segs: "handle_ok h s segs" "concat segs = exposed_data sourcepath path s0" by blast
  with assms(2) have b: "length (concat segs) < 2 ^ 63" by simp
  from assms(3) have "0 \<le> sint offset" by simp
  then have "int (unat offset) = sint offset" by (rule sint_nonneg_unat)
  with assms(3) have "int (length (exposed_data sourcepath path s0)) \<le> int (unat offset)"
    by (simp only:)
  then have "length (exposed_data sourcepath path s0) \<le> unat offset"
    by (simp only: of_nat_le_iff)
  with segs(2) have "length (concat segs) \<le> unat offset" by simp
  then have "total_size h \<le> offset"
    by (simp only: word_le_nat_alt handle_ok_total [OF segs(1) b])
  then show ?thesis by (simp add: dvdwrap_read_def)
qed

theorem read_past_end_witness:
  "\<exists>h s. dvdwrap_open ''/src'' ''/dvd.mpg'' roundtrip_os = Done (0, Some h, s) \<and>
      dvdwrap_read h 200 350 s = Some (0, [], s)"
proof -
  from roundtrip_open obtain h s where
    op: "dvdwrap_open ''/src'' ''/dvd.mpg'' roundtrip_os = Done (0, Some h, s)" by blast
  then have ses: "session ''/src'' ''/dvd.mpg'' roundtrip_os h s" by (rule session.opened)
  have len: "length (exposed_data ''/src'' ''/dvd.mpg'' roundtrip_os) = 350"
    by (simp add: roundtrip_data vob_lengths)
  have bound: "length (exposed_data ''/src'' ''/dvd.mpg'' roundtrip_os) < 2 ^ 63"
    unfolding len by simp
  have off: "int (length (exposed_data ''/src'' ''/dvd.mpg'' roundtrip_os)) \<le> sint (350 :: 64 word)"
    unfolding len by simp
  from read_past_end [OF ses bound off, of 200] op show ?thesis by blast
qed

subsection \<open>Gap truncation\<close>

text \<open>
  Claim C8. When the segments of minor numbers 1, 2 and 4 of a titleset exist and the one
  of minor number 3 is missing, the inner loop of the scan is left at minor number 3 with
  the sizes of segments 1 and 2 added to the titleset's entry, and a scan that selects
  the titleset returns the sum of these two sizes: segment 4 is never counted.
\<close>

theorem gap_truncation:
  assumes "lstat s (vob_path path maj 1) = Some st1"
    and "lstat s (vob_path path maj 2) = Some st2"
    and "lstat s (vob_path path maj 3) = None"
    and "lstat s (vob_path path maj 4) = Some st4"
    and "maj < length titlesize"
  shows "scan_min s path maj 1 titlesize =
           (3, titlesize[maj := titlesize ! maj + (st_size st1 + st_size st2)]) \<and>
         (\<forall>tot. dvdwrap_scan_videots s path = Some (maj, tot) \<longrightarrow> tot = st_size st1 + st_size st2)"
proof -
  have sizes: "titleset_sizes s path maj = [st_size st1, st_size st2]"
    unfolding titleset_sizes_def
  proof (rule segment_sizes_eq)
    show "length [st_size st1, st_size st2] \<le> 9" by simp
    show "\<forall>i<length [st_size st1, st_size st2].
            map_option st_size (lstat s (vob_path path maj (1 + i))) = Some ([st_size st1, st_size st2] ! i)"
      using assms(1,2) by (auto simp: less_Suc_eq numeral_2_eq_2)
    show "length [st_size st1, st_size st2] < 9 \<longrightarrow>
            lstat s (vob_path path maj (1 + length [st_size st1, st_size st2])) = None"
      using assms(3) by (simp add: numeral_3_eq_3)
  qed
  then have agg: "aggregate_size s path maj = st_size st1 + st_size st2"
    by (simp add: aggregate_size_def)
  have "scan_min s path maj 1 titlesize =
          (3, titlesize[maj := titlesize ! maj + (st_size st1 + st_size st2)])"
    using scan_min_1 [OF assms(5), of s path] sizes agg by (simp add: numeral_3_eq_3)
  moreover have "tot = st_size st1 + st_size st2" if "dvdwrap_scan_videots s path = Some (maj, tot)" for tot
    using scan_Some(2) [OF that] agg by simp
  ultimately show ?thesis by blast
qed

theorem gap_truncation_witness:
  "scan_min gap_os ''/src//dvd'' 1 1 (replicate MAX_VTS_MAJ 0) = (3, (replicate MAX_VTS_MAJ 0)[1 := 7]) \<and>
   dvdwrap_scan_videots gap_os ''/src//dvd'' = Some (1, 7)"
proof -
  have 1: "lstat gap_os (vob_path ''/src//dvd'' 1 1) = Some \<lparr>st_mode = 0x81A4, st_size = 3\<rparr>"
    by (simp add: gap_os_def tree_eval path_eval)
  have 2: "lstat gap_os (vob_path ''/src//dvd'' 1 2) = Some \<lparr>st_mode = 0x81A4, st_size = 4\<rparr>"
    by (simp add: gap_os_def tree_eval path_eval)
  have 3: "lstat gap_os (vob_path ''/src//dvd'' 1 3) = None"
    by (simp add: gap_os_def tree_eval path_eval)
  have 4: "lstat gap_os (vob_path ''/src//dvd'' 1 4) = Some \<lparr>st_mode = 0x81A4, st_size = 5\<rparr>"
    by (simp add: gap_os_def tree_eval path_eval)
  have 5: "1 < length (replicate MAX_VTS_MAJ (0 :: 64 word))" by (simp add: MAX_VTS_MAJ_def)
  have sc: "dvdwrap_scan_videots gap_os ''/src//dvd'' = Some (1, 7)"
    by (simp add: gap_os_def scan_eval tree_eval path_eval)
  from gap_truncation [OF 1 2 3 4 5] sc show ?thesis by (simp add: MAX_VTS_MAJ_def)
qed

subsection \<open>The reported size\<close>

lemma of_nat_sum_list: "sum_list (map of_nat ns) = (of_nat (sum_list ns) :: 64 word)"
  by (induction ns) simp_all

text \<open>The attribute query reports the aggregate size of the titleset the scan selects.\<close>

lemma selected_size_reported:
  assumes ext: "has_extension (target_path sourcepath path) = Done True"
    and root: "root = strip_extension (target_path sourcepath path)"
    and ifo: "lstat s (ifo_path root) = Some ifo_st"
    and sel: "dvdwrap_scan_videots s root = Some (maj, tot)"
    and n: "length ns \<le> 9"
    and segs: "\<forall>i<length ns. \<exists>ino. files s (vob_path root maj (Suc i)) = Some ino \<and>
                                   length (i_data ino) = ns ! i"
    and gap: "length ns < 9 \<longrightarrow> files s (vob_path root maj (Suc (length ns))) = None"
  shows "dvdwrap_getattr sourcepath path s = Done (0, ifo_st\<lparr>st_size := of_nat (sum_list ns)\<rparr>) \<and>
         tot = of_nat (sum_list ns) \<and>
         (sum_list ns < 2 ^ 63 \<longrightarrow>
            sint (st_size (ifo_st\<lparr>st_size := of_nat (sum_list ns)\<rparr>)) = int (sum_list ns))"
proof -
  have sizes: "titleset_sizes s root maj = map of_nat ns"
    unfolding titleset_sizes_def
  proof (rule segment_sizes_eq)
    show "length (map of_nat ns :: 64 word list) \<le> 9" using n by simp
    show "\<forall>i<length (map of_nat ns :: 64 word list).
            map_option st_size (lstat s (vob_path root maj (1 + i))) = Some (map of_nat ns ! i)"
      using segs by (auto simp: lstat_def)
    show "length (map of_nat ns :: 64 word list) < 9 \<longrightarrow>
            lstat s (vob_path root maj (1 + length (map of_nat ns :: 64 word list))) = None"
      using gap by (simp add: lstat_None)
  qed
  have "tot = aggregate_size s root maj" using sel by (rule scan_Some(2))
  then have tot: "tot = of_nat (sum_list ns)"
    by (simp add: aggregate_size_def sizes of_nat_sum_list)
  have ga: "dvdwrap_getattr sourcepath path s = Done (0, ifo_st\<lparr>st_size := tot\<rparr>)"
    using ext ifo sel unfolding dvdwrap_getattr_def Let_def root [symmetric] by simp
  have "sint (of_nat (sum_list ns) :: 64 word) = int (sum_list ns)" if b: "sum_list ns < 2 ^ 63"
  proof -
    from b have "sum_list ns < 2 ^ 64" by (rule less_trans) simp
    then have u: "unat (of_nat (sum_list ns) :: 64 word) = sum_list ns" by (rule unat_of_nat_64)
    with b have "unat (of_nat (sum_list ns) :: 64 word) < 2 ^ 63" by simp
    from sint_eq_unat_64 [OF this] u show ?thesis by simp
  qed
  with ga tot show ?thesis by simp
qed

text \<open>
  The titleset the scan selects is the first of the largest aggregate size in the run of
  major numbers it visits, provided that size is not 0.
\<close>

lemma sorted_titlesets_from: "sorted_wrt (<) (titlesets_from s path maj k)"
proof (induction k arbitrary: maj)
  case 0
  then show ?case by simp
next
  case (Suc k)
  show ?case
  proof (cases "lstat s (vob_path path maj 1)")
    case None
    then show ?thesis by simp
  next
    case (Some st)
    have "\<forall>m\<in>set (titlesets_from s path (Suc maj) k). maj < m"
      by (simp add: set_titlesets_from)
    with Some Suc.IH [of "Suc maj"] show ?thesis by simp
  qed
qed

lemma select_longest_keep:
  "\<forall>m\<in>set ms. aggregate_size s path m \<le> snd best \<Longrightarrow> select_longest s path ms best = best"
  by (induction ms) (auto simp: not_less)

lemma select_longest_first_max:
  "sorted_wrt (<) ms \<Longrightarrow> maj \<in> set ms \<Longrightarrow> snd best < aggregate_size s path maj \<Longrightarrow>
   \<forall>m\<in>set ms. m < maj \<longrightarrow> aggregate_size s path m < aggregate_size s path maj \<Longrightarrow>
   \<forall>m\<in>set ms. maj < m \<longrightarrow> aggregate_size s path m \<le> aggregate_size s path maj \<Longrightarrow>
   select_longest s path ms best = (maj, aggregate_size s path maj)"
proof (induction ms arbitrary: best)
  case Nil
  then show ?case by simp
next
  case (Cons m ms)
  show ?case
  proof (cases "m = maj")
    case True
    from Cons.prems(1) True have "\<forall>x\<in>set ms. maj < x" by simp
    with Cons.prems(5) have "\<forall>x\<in>set ms. aggregate_size s path x \<le> snd (maj, aggregate_size s path maj)"
      by simp
    then have "select_longest s path ms (maj, aggregate_size s path maj) = (maj, aggregate_size s path maj)"
      by (rule select_longest_keep)
    with True Cons.prems(3) show ?thesis by simp
  next
    case False
    with Cons.prems(2) have in_ms: "maj \<in> set ms" by simp
    with Cons.prems(1) have lt: "m < maj" by auto
    from Cons.prems(1) have sorted: "sorted_wrt (<) ms" by simp
    from Cons.prems(4) lt have small: "aggregate_size s path m < aggregate_size s path maj" by simp
    have before: "\<forall>x\<in>set ms. x < maj \<longrightarrow> aggregate_size s path x < aggregate_size s path maj"
      using Cons.prems(4) by simp
    have after: "\<forall>x\<in>set ms. maj < x \<longrightarrow> aggregate_size s path x \<le> aggregate_size s path maj"
      using Cons.prems(5) by simp
    show ?thesis
    proof (cases "aggregate_size s path m > snd best")
      case True
      have "select_longest s path ms (m, aggregate_size s path m) = (maj, aggregate_size s path maj)"
        using sorted in_ms _ before after by (rule Cons.IH) (simp add: small)
      with True show ?thesis by simp
    next
      case False
      have "select_longest s path ms best = (maj, aggregate_size s path maj)"
        using sorted in_ms Cons.prems(3) before after by (rule Cons.IH)
      with False show ?thesis by simp
    qed
  qed
qed

lemma scan_selects:
  assumes maj: "1 \<le> maj" "maj < MAX_VTS_MAJ"
    and run: "\<forall>j. 1 \<le> j \<and> j \<le> maj \<longrightarrow> lstat s (vob_path path j 1) \<noteq> None"
    and nz: "aggregate_size s path maj \<noteq> 0"
    and before: "\<forall>m. 1 \<le> m \<and> m < maj \<longrightarrow> aggregate_size s path m < aggregate_size s path maj"
    and after: "\<forall>m. maj < m \<and> m < MAX_VTS_MAJ \<and>
                  (\<forall>j. 1 \<le> j \<and> j \<le> m \<longrightarrow> lstat s (vob_path path j 1) \<noteq> None) \<longrightarrow>
                  aggregate_size s path m \<le> aggregate_size s path maj"
  shows "dvdwrap_scan_videots s path = Some (maj, aggregate_size s path maj)"
proof -
  have inm: "maj \<in> set (titlesets s path)" using maj run by (simp add: set_titlesets)
  have sorted: "sorted_wrt (<) (titlesets s path)"
    unfolding titlesets_def by (rule sorted_titlesets_from)
  have pos: "snd (0 :: nat, 0 :: 64 word) < aggregate_size s path maj"
    using nz by (simp add: word_gt_0)
  have b: "\<forall>m\<in>set (titlesets s path). m < maj \<longrightarrow> aggregate_size s path m < aggregate_size s path maj"
    using before by (simp add: set_titlesets)
  have a: "\<forall>m\<in>set (titlesets s path). maj < m \<longrightarrow> aggregate_size s path m \<le> aggregate_size s path maj"
    using after by (simp add: set_titlesets)
  have "select_longest s path (titlesets s path) (0, 0) = (maj, aggregate_size s path maj)"
    using sorted inm pos b a by (rule select_longest_first_max)
  with maj show ?thesis by (simp add: scan_videots_eq)
qed

text \<open>
  Claim C2, as the code has it. Let titleset \<open>maj\<close> lie in the run of major numbers the
  scan visits under the DVD image root of a synthetic path, let its segment files of
  minor numbers 1 to \<open>n\<close> exist with \<open>ns\<close> bytes, with no segment \<open>n + 1\<close> (or \<open>n = 9\<close>), and
  let it be the titleset the image's synthetic file stands for: its aggregate size is not
  0, is larger than that of every titleset before it and at least that of every titleset
  of the run after it. Then the scan selects it and the attribute query reports the size
  \<open>sum_list ns\<close>: as a 64-bit value always, and as the signed \<^verbatim>\<open>off_t\<close> it is stored in
  whenever the sum is below \<open>2 ^ 63\<close>. The sum runs over the minor numbers from 1 on; the
  menu segment (minor number 0) is not read.
\<close>

theorem aggregate_size_reported:
  assumes ext: "has_extension (target_path sourcepath path) = Done True"
    and root: "root = strip_extension (target_path sourcepath path)"
    and ifo: "lstat s (ifo_path root) = Some ifo_st"
    and maj: "1 \<le> maj" "maj < MAX_VTS_MAJ"
    and run: "\<forall>j. 1 \<le> j \<and> j \<le> maj \<longrightarrow> lstat s (vob_path root j 1) \<noteq> None"
    and n: "length ns \<le> 9"
    and segs: "\<forall>i<length ns. \<exists>ino. files s (vob_path root maj (Suc i)) = Some ino \<and>
                                   length (i_data ino) = ns ! i"
    and gap: "length ns < 9 \<longrightarrow> files s (vob_path root maj (Suc (length ns))) = None"
    and nz: "(of_nat (sum_list ns) :: 64 word) \<noteq> 0"
    and before: "\<forall>m. 1 \<le> m \<and> m < maj \<longrightarrow> aggregate_size s root m < of_nat (sum_list ns)"
    and after: "\<forall>m. maj < m \<and> m < MAX_VTS_MAJ \<and>
                  (\<forall>j. 1 \<le> j \<and> j \<le> m \<longrightarrow> lstat s (vob_path root j 1) \<noteq> None) \<longrightarrow>
                  aggregate_size s root m \<le> of_nat (sum_list ns)"
  shows "dvdwrap_scan_videots s root = Some (maj, of_nat (sum_list ns)) \<and>
         dvdwrap_getattr sourcepath path s = Done (0, ifo_st\<lparr>st_size := of_nat (sum_list ns)\<rparr>) \<and>
         (sum_list ns < 2 ^ 63 \<longrightarrow>
            sint (st_size (ifo_st\<lparr>st_size := of_nat (sum_list ns)\<rparr>)) = int (sum_list ns))"
proof -
  have sizes: "titleset_sizes s root maj = map of_nat ns"
    unfolding titleset_sizes_def
  proof (rule segment_sizes_eq)
    show "length (map of_nat ns :: 64 word list) \<le> 9" using n by simp
    show "\<forall>i<length (map of_nat ns :: 64 word list).
            map_option st_size (lstat s (vob_path root maj (1 + i))) = Some (map of_nat ns ! i)"
      using segs by (auto simp: lstat_def)
    show "length (map of_nat ns :: 64 word list) < 9 \<longrightarrow>
            lstat s (vob_path root maj (1 + length (map of_nat ns :: 64 word list))) = None"
      using gap by (simp add: lstat_None)
  qed
  then have agg: "aggregate_size s root maj = of_nat (sum_list ns)"
    by (simp add: aggregate_size_def of_nat_sum_list)
  have sel: "dvdwrap_scan_videots s root = Some (maj, of_nat (sum_list ns))"
    using scan_selects [OF maj run, unfolded agg, OF nz before after] .
  from selected_size_reported [OF ext root ifo sel n segs gap] sel show ?thesis by simp
qed

theorem aggregate_size_reported_witness:
  "dvdwrap_scan_videots roundtrip_os ''/src//dvd'' = Some (1, 350) \<and>
   dvdwrap_getattr ''/src'' ''/dvd.mpg'' roundtrip_os = Done (0, \<lparr>st_mode = 0x81A4, st_size = 350\<rparr>)"
proof -
  have tp: "target_path ''/src'' ''/dvd.mpg'' = ''/src//dvd.mpg''"
    by (simp add: path_eval)
  have ext: "has_extension (target_path ''/src'' ''/dvd.mpg'') = Done True"
    unfolding tp by (simp add: path_eval)
  have root: "''/src//dvd'' = strip_extension (target_path ''/src'' ''/dvd.mpg'')"
    unfolding tp by (simp add: path_eval)
  have ifo: "lstat roundtrip_os (ifo_path ''/src//dvd'') = Some \<lparr>st_mode = 0x81A4, st_size = 0\<rparr>"
    by (simp add: roundtrip_os_def tree_eval path_eval)
  have maj: "1 \<le> (1 :: nat)" "(1 :: nat) < MAX_VTS_MAJ" by (simp_all add: MAX_VTS_MAJ_def)
  have l1: "lstat roundtrip_os (vob_path ''/src//dvd'' 1 1) \<noteq> None"
    by (simp add: roundtrip_os_def tree_eval path_eval)
  have l2: "lstat roundtrip_os (vob_path ''/src//dvd'' 2 1) = None"
    by (simp add: roundtrip_os_def tree_eval path_eval)
  have run: "\<forall>j. 1 \<le> j \<and> j \<le> 1 \<longrightarrow> lstat roundtrip_os (vob_path ''/src//dvd'' j 1) \<noteq> None"
  proof (intro allI impI)
    fix j :: nat assume "1 \<le> j \<and> j \<le> 1"
    then have "j = 1" by simp
    with l1 show "lstat roundtrip_os (vob_path ''/src//dvd'' j 1) \<noteq> None" by simp
  qed
  have n: "length [100, 200, 50 :: nat] \<le> 9" by simp
  have f1: "files roundtrip_os (vob_path ''/src//dvd'' 1 1) = Some (regular_file first_vob)"
    by (simp add: roundtrip_os_def tree_os_def path_eval)
  have f2: "files roundtrip_os (vob_path ''/src//dvd'' 1 2) = Some (regular_file second_vob)"
    by (simp add: roundtrip_os_def tree_os_def path_eval)
  have f3: "files roundtrip_os (vob_path ''/src//dvd'' 1 3) = Some (regular_file third_vob)"
    by (simp add: roundtrip_os_def tree_os_def path_eval)
  have f4: "files roundtrip_os (vob_path ''/src//dvd'' 1 4) = None"
    by (simp add: roundtrip_os_def tree_os_def path_eval)
  have segs: "\<forall>i<length [100, 200, 50 :: nat].
      \<exists>ino. files roundtrip_os (vob_path ''/src//dvd'' 1 (Suc i)) = Some ino \<and>
            length (i_data ino) = [100, 200, 50] ! i"
    using f1 f2 f3
    by (auto simp: less_Suc_eq numeral_2_eq_2 numeral_3_eq_3 regular_file_def vob_lengths)
  have gap: "length [100, 200, 50 :: nat] < 9 \<longrightarrow>
      files roundtrip_os (vob_path ''/src//dvd'' 1 (Suc (length [100, 200, 50 :: nat]))) = None"
    using f4 by (simp add: eval_nat_numeral)
  have nz: "(of_nat (sum_list [100, 200, 50 :: nat]) :: 64 word) \<noteq> 0" by simp
  have before: "\<forall>m. 1 \<le> m \<and> m < 1 \<longrightarrow>
      aggregate_size roundtrip_os ''/src//dvd'' m < of_nat (sum_list [100, 200, 50 :: nat])"
    by simp
  have after: "\<forall>m. 1 < m \<and> m < MAX_VTS_MAJ \<and>
      (\<forall>j. 1 \<le> j \<and> j \<le> m \<longrightarrow> lstat roundtrip_os (vob_path ''/src//dvd'' j 1) \<noteq> None) \<longrightarrow>
      aggregate_size roundtrip_os ''/src//dvd'' m \<le> of_nat (sum_list [100, 200, 50 :: nat])"
  proof (intro allI impI)
    fix m :: nat
    assume m: "1 < m \<and> m < MAX_VTS_MAJ \<and>
      (\<forall>j. 1 \<le> j \<and> j \<le> m \<longrightarrow> lstat roundtrip_os (vob_path ''/src//dvd'' j 1) \<noteq> None)"
    then have "1 \<le> (2 :: nat) \<and> 2 \<le> m" by simp
    with m l2 have False by blast
    then show "aggregate_size roundtrip_os ''/src//dvd'' m \<le> of_nat (sum_list [100, 200, 50 :: nat])" ..
  qed
  from aggregate_size_reported [OF ext root ifo maj run n segs gap nz before after]
  show ?thesis by simp
qed

text \<open>
  The claim as stated fails: a titleset whose segments 1 and 2 exist and are empty has
  the sum 0, and the attribute query of its image answers NotFound, not the size 0.
\<close>

theorem empty_titleset_counterexample:
  "lstat empty_titleset_os (ifo_path ''/src//dvd'') = Some \<lparr>st_mode = 0x81A4, st_size = 0\<rparr> \<and>
   files empty_titleset_os (vob_path ''/src//dvd'' 1 1) = Some (regular_file []) \<and>
   files empty_titleset_os (vob_path ''/src//dvd'' 1 2) = Some (regular_file []) \<and>
   files empty_titleset_os (vob_path ''/src//dvd'' 1 3) = None \<and>
   dvdwrap_getattr ''/src'' ''/dvd.mpg'' empty_titleset_os =
     Done (- ENOENT, \<lparr>st_mode = 0x81A4, st_size = 0\<rparr>)"
proof -
  have tp: "target_path ''/src'' ''/dvd.mpg'' = ''/src//dvd.mpg''"
    by (simp add: path_eval)
  have ext: "has_extension ''/src//dvd.mpg'' = Done True" "strip_extension ''/src//dvd.mpg'' = ''/src//dvd''"
    by (simp_all add: path_eval)
  have ifo: "lstat empty_titleset_os (ifo_path ''/src//dvd'') = Some \<lparr>st_mode = 0x81A4, st_size = 0\<rparr>"
    by (simp add: empty_titleset_os_def tree_eval path_eval)
  have sc: "dvdwrap_scan_videots empty_titleset_os ''/src//dvd'' = None"
    by (simp add: empty_titleset_os_def scan_eval tree_eval path_eval)
  have ga: "dvdwrap_getattr ''/src'' ''/dvd.mpg'' empty_titleset_os =
     Done (- ENOENT, \<lparr>st_mode = 0x81A4, st_size = 0\<rparr>)"
    unfolding dvdwrap_getattr_def tp Let_def ext run.case bool.case ifo option.case sc
    by simp
  have f1: "files empty_titleset_os (vob_path ''/src//dvd'' 1 1) = Some (regular_file [])"
    by (simp add: empty_titleset_os_def tree_os_def path_eval)
  have f2: "files empty_titleset_os (vob_path ''/src//dvd'' 1 2) = Some (regular_file [])"
    by (simp add: empty_titleset_os_def tree_os_def path_eval)
  have f3: "files empty_titleset_os (vob_path ''/src//dvd'' 1 3) = None"
    by (simp add: empty_titleset_os_def tree_os_def path_eval)
  from ifo f1 f2 f3 ga show ?thesis by simp
qed

subsection \<open>Main-feature selection\<close>

text \<open>
  Claim C3, as the code has it. Let \<open>a\<close> and \<open>b\<close> be titlesets of the run of major numbers
  the scan visits (every major number from 1 up to the larger of the two has a segment of
  minor number 1), with aggregate sizes \<open>A < B\<close>. Then the scan succeeds and does not
  select \<open>a\<close>: the selected titleset has an aggregate of at least \<open>B\<close>, and it is \<open>b\<close>
  when every other titleset of the run is smaller than \<open>B\<close>. The synthetic file of the
  image stands for the segments of the selected titleset.
\<close>

theorem largest_titleset_selected:
  assumes a: "1 \<le> a" "a < MAX_VTS_MAJ" and b: "1 \<le> b" "b < MAX_VTS_MAJ"
    and run: "\<forall>j. 1 \<le> j \<and> j \<le> max a b \<longrightarrow> lstat s (vob_path path j 1) \<noteq> None"
    and lt: "aggregate_size s path a < aggregate_size s path b"
  shows "\<exists>maj tot. dvdwrap_scan_videots s path = Some (maj, tot) \<and> maj \<noteq> a \<and>
           tot = aggregate_size s path maj \<and> aggregate_size s path b \<le> tot \<and>
           ((\<forall>m. 1 \<le> m \<and> m < MAX_VTS_MAJ \<and> m \<noteq> b \<and>
                 (\<forall>j. 1 \<le> j \<and> j \<le> m \<longrightarrow> lstat s (vob_path path j 1) \<noteq> None) \<longrightarrow>
                 aggregate_size s path m < aggregate_size s path b) \<longrightarrow> maj = b) \<and>
           (\<forall>sourcepath p. strip_extension (target_path sourcepath p) = path \<longrightarrow>
                exposed_data sourcepath p s = titleset_data s path maj)"
proof -
  have "\<forall>j. 1 \<le> j \<and> j \<le> a \<longrightarrow> lstat s (vob_path path j 1) \<noteq> None"
    using run by (meson max.coboundedI1)
  then have ina: "a \<in> set (titlesets s path)" using a by (simp add: set_titlesets)
  have "\<forall>j. 1 \<le> j \<and> j \<le> b \<longrightarrow> lstat s (vob_path path j 1) \<noteq> None"
    using run by (meson max.coboundedI2)
  then have inb: "b \<in> set (titlesets s path)" using b by (simp add: set_titlesets)
  have "aggregate_size s path b \<noteq> 0" using lt by (metis word_not_simps(1))
  with inb have "dvdwrap_scan_videots s path \<noteq> None" by (auto simp: scan_None_iff)
  then obtain maj tot where sel: "dvdwrap_scan_videots s path = Some (maj, tot)" by auto
  note S = scan_Some [OF sel]
  from S(4) inb have ge: "aggregate_size s path b \<le> tot" by blast
  with lt S(2) have ne: "maj \<noteq> a" by auto
  have "maj = b" if uniq: "\<forall>m. 1 \<le> m \<and> m < MAX_VTS_MAJ \<and> m \<noteq> b \<and>
                 (\<forall>j. 1 \<le> j \<and> j \<le> m \<longrightarrow> lstat s (vob_path path j 1) \<noteq> None) \<longrightarrow>
                 aggregate_size s path m < aggregate_size s path b"
  proof (rule ccontr)
    assume "maj \<noteq> b"
    with S(1) uniq have "aggregate_size s path maj < aggregate_size s path b"
      by (simp add: set_titlesets)
    with ge S(2) show False by simp
  qed
  moreover have "exposed_data sourcepath p s = titleset_data s path maj"
    if "strip_extension (target_path sourcepath p) = path" for sourcepath p
    using that sel by (simp add: exposed_data_def)
  ultimately show ?thesis using sel ne S(2) ge by blast
qed

theorem largest_titleset_selected_witness:
  "dvdwrap_scan_videots two_titlesets_os ''/src//dvd'' = Some (2, 3)"
proof -
  have a: "1 \<le> (1::nat)" "(1::nat) < MAX_VTS_MAJ" and b: "1 \<le> (2::nat)" "(2::nat) < MAX_VTS_MAJ"
    by (simp_all add: MAX_VTS_MAJ_def)
  have l1: "lstat two_titlesets_os (vob_path ''/src//dvd'' 1 1) \<noteq> None"
    by (simp add: two_titlesets_os_def tree_eval path_eval)
  have l2: "lstat two_titlesets_os (vob_path ''/src//dvd'' 2 1) \<noteq> None"
    by (simp add: two_titlesets_os_def tree_eval path_eval)
  have run: "\<forall>j. 1 \<le> j \<and> j \<le> max 1 2 \<longrightarrow> lstat two_titlesets_os (vob_path ''/src//dvd'' j 1) \<noteq> None"
  proof (intro allI impI)
    fix j :: nat assume "1 \<le> j \<and> j \<le> max 1 2"
    then have "j = 1 \<or> j = 2" by auto
    with l1 l2 show "lstat two_titlesets_os (vob_path ''/src//dvd'' j 1) \<noteq> None" by auto
  qed
  have a1: "aggregate_size two_titlesets_os ''/src//dvd'' 1 = 1"
    by (simp add: two_titlesets_os_def spec_eval segment_sizes_unfold tree_eval path_eval)
  have a2: "aggregate_size two_titlesets_os ''/src//dvd'' 2 = 3"
    by (simp add: two_titlesets_os_def spec_eval segment_sizes_unfold tree_eval path_eval)
  have lt: "aggregate_size two_titlesets_os ''/src//dvd'' 1 < aggregate_size two_titlesets_os ''/src//dvd'' 2"
    unfolding a1 a2 by simp
  have l3: "lstat two_titlesets_os (vob_path ''/src//dvd'' 3 1) = None"
    by (simp add: two_titlesets_os_def tree_eval path_eval)
  have uniq: "\<forall>m. 1 \<le> m \<and> m < MAX_VTS_MAJ \<and> m \<noteq> 2 \<and>
       (\<forall>j. 1 \<le> j \<and> j \<le> m \<longrightarrow> lstat two_titlesets_os (vob_path ''/src//dvd'' j 1) \<noteq> None) \<longrightarrow>
       aggregate_size two_titlesets_os ''/src//dvd'' m < aggregate_size two_titlesets_os ''/src//dvd'' 2"
  proof (intro allI impI)
    fix m :: nat
    assume m: "1 \<le> m \<and> m < MAX_VTS_MAJ \<and> m \<noteq> 2 \<and>
       (\<forall>j. 1 \<le> j \<and> j \<le> m \<longrightarrow> lstat two_titlesets_os (vob_path ''/src//dvd'' j 1) \<noteq> None)"
    have "m < 3"
    proof (rule ccontr)
      assume "\<not> m < 3"
      then have "1 \<le> (3::nat) \<and> 3 \<le> m" by simp
      with m l3 show False by blast
    qed
    with m have "m = 1" by auto
    with lt show "aggregate_size two_titlesets_os ''/src//dvd'' m < aggregate_size two_titlesets_os ''/src//dvd'' 2"
      by simp
  qed
  from largest_titleset_selected [OF a b run lt] uniq a2
  show ?thesis by auto
qed

text \<open>
  With titlesets at major numbers 1 (one byte) and 3 (two bytes) and none at 2, the scan
  never reaches the larger one.
\<close>

theorem selection_counterexample:
  "aggregate_size major_gap_os ''/src//dvd'' 1 = 1 \<and>
   aggregate_size major_gap_os ''/src//dvd'' 3 = 2 \<and>
   dvdwrap_scan_videots major_gap_os ''/src//dvd'' = Some (1, 1)"
  by (simp add: major_gap_os_def scan_eval spec_eval segment_sizes_unfold tree_eval path_eval)

subsection \<open>Classification of a path\<close>






subsection \<open>A missing index file\<close>

text \<open>
  Claim C6, as the code has it. When the index file of the DVD image root of a synthetic
  path is missing, the attribute query fails with NotFound. Open does not look at the
  index file: it fails with NotFound when the scan finds no titleset, and succeeds when
  the scan finds one, memory is available and every segment opens.
\<close>

theorem missing_index_file:
  assumes ext: "has_extension (target_path sourcepath path) = Done True"
    and root: "root = strip_extension (target_path sourcepath path)"
    and noifo: "lstat s (ifo_path root) = None"
  shows "dvdwrap_getattr sourcepath path s = Done (- ENOENT, zero_stat) \<and>
         (dvdwrap_scan_videots s root = None \<longrightarrow>
            dvdwrap_open sourcepath path s = Done (- ENOENT, None, s)) \<and>
         (\<forall>maj tot h s'.
            dvdwrap_scan_videots s root = Some (maj, tot) \<and> mem_ok s \<and>
            open_loop root maj 1 (calloc_fh\<lparr>total_size := 0\<rparr>) s = (True, h, s') \<longrightarrow>
            dvdwrap_open sourcepath path s = Done (0, Some h, s'))"
proof (intro conjI impI allI)
  show "dvdwrap_getattr sourcepath path s = Done (- ENOENT, zero_stat)"
    unfolding dvdwrap_getattr_def Let_def ext root [symmetric] using noifo by simp
  show "dvdwrap_open sourcepath path s = Done (- ENOENT, None, s)"
    if "dvdwrap_scan_videots s root = None"
    unfolding dvdwrap_open_def Let_def ext root [symmetric] using that by simp
  fix maj tot h s'
  assume "dvdwrap_scan_videots s root = Some (maj, tot) \<and> mem_ok s \<and>
            open_loop root maj 1 (calloc_fh\<lparr>total_size := 0\<rparr>) s = (True, h, s')"
  then show "dvdwrap_open sourcepath path s = Done (0, Some h, s')"
    unfolding dvdwrap_open_def Let_def ext root [symmetric] by simp
qed

lemma no_ifo_paths:
  "target_path ''/src'' ''/dvd.mpg'' = ''/src//dvd.mpg''"
  "has_extension ''/src//dvd.mpg'' = Done True"
  "strip_extension ''/src//dvd.mpg'' = ''/src//dvd''"
  by (simp_all add: path_eval)

lemma no_ifo_lstat: "lstat no_ifo_os (ifo_path ''/src//dvd'') = None"
  by (simp add: no_ifo_os_def tree_eval path_eval)

lemma no_ifo_scan: "dvdwrap_scan_videots no_ifo_os ''/src//dvd'' = Some (1, 3)"
  by (simp add: no_ifo_os_def scan_eval tree_eval path_eval)

lemma no_ifo_open_loop:
  "\<exists>h s. open_loop ''/src//dvd'' 1 1 (calloc_fh\<lparr>total_size := 0\<rparr>) no_ifo_os = (True, h, s)"
  by (simp add: no_ifo_os_def open_loop.simps sys_open_def calloc_fh_def Let_def tree_eval path_eval
        MAX_VTS_MIN_def upt_rec)

theorem missing_index_file_witness:
  "dvdwrap_getattr ''/src'' ''/dvd.mpg'' no_ifo_os = Done (- ENOENT, zero_stat) \<and>
   result_code (dvdwrap_open ''/src'' ''/dvd.mpg'' no_ifo_os) = Some 0"
proof -
  have ext: "has_extension (target_path ''/src'' ''/dvd.mpg'') = Done True"
    unfolding no_ifo_paths by simp
  have root: "''/src//dvd'' = strip_extension (target_path ''/src'' ''/dvd.mpg'')"
    unfolding no_ifo_paths by simp
  have mem: "mem_ok no_ifo_os" by (simp add: no_ifo_os_def tree_os_def)
  from no_ifo_open_loop obtain h s where
    ol: "open_loop ''/src//dvd'' 1 1 (calloc_fh\<lparr>total_size := 0\<rparr>) no_ifo_os = (True, h, s)" by blast
  from missing_index_file [OF ext root no_ifo_lstat] no_ifo_scan mem ol
  have "dvdwrap_getattr ''/src'' ''/dvd.mpg'' no_ifo_os = Done (- ENOENT, zero_stat)"
    and "dvdwrap_open ''/src'' ''/dvd.mpg'' no_ifo_os = Done (0, Some h, s)"
    by blast+
  then show ?thesis by (simp add: result_code_def)
qed

text \<open>
  The claim as stated fails for open: here the index file is missing and open returns 0.
\<close>

theorem open_without_index_file_counterexample:
  "lstat no_ifo_os (ifo_path (strip_extension (target_path ''/src'' ''/dvd.mpg''))) = None \<and>
   result_code (dvdwrap_open ''/src'' ''/dvd.mpg'' no_ifo_os) = Some 0"
proof -
  have mem: "mem_ok no_ifo_os" by (simp add: no_ifo_os_def tree_os_def)
  from no_ifo_open_loop obtain h s where
    ol: "open_loop ''/src//dvd'' 1 1 (calloc_fh\<lparr>total_size := 0\<rparr>) no_ifo_os = (True, h, s)" by blast
  have "dvdwrap_open ''/src'' ''/dvd.mpg'' no_ifo_os = Done (0, Some h, s)"
    unfolding dvdwrap_open_def no_ifo_paths Let_def run.case bool.case no_ifo_scan option.case prod.case ol
    using mem by simp
  then show ?thesis unfolding no_ifo_paths using no_ifo_lstat by (simp add: result_code_def)
qed

subsection \<open>Descriptors left open by release\<close>

lemma leak_scan: "dvdwrap_scan_videots empty_segment_os ''/src//dvd'' = Some (1, 1)"
  by (simp add: empty_segment_os_def scan_eval tree_eval path_eval)

lemma leak_open_loop:
  "open_loop ''/src//dvd'' 1 1 (calloc_fh\<lparr>total_size := 0\<rparr>) empty_segment_os
     = (True, leak_handle, leak_state)"
  apply (simp add: leak_handle_def leak_state_def empty_segment_os_def open_loop.simps sys_open_def
        calloc_fh_def Let_def tree_eval path_eval MAX_VTS_MIN_def upt_rec)
  apply (simp add: eval_nat_numeral)
  done

lemma leak_release:
  "release_loop leak_handle 1 leak_state =
     leak_state\<lparr>fdtab := (fdtab leak_state)(3 := None)\<rparr>"
  by (simp add: leak_handle_def release_loop.simps sys_close_def MAX_VTS_MIN_def leak_state_def
        empty_segment_os_def tree_os_def)

text \<open>
  Claim C7 fails on the code. With a first segment of one byte and an empty second
  segment, open takes descriptors 3 and 4; release closes a slot only when its recorded
  size is not 0, so it closes descriptor 3 and leaves descriptor 4, which was free before
  the open, open after the release.
\<close>

theorem release_leaks_empty_segment:
  "dvdwrap_open ''/src'' ''/dvd.mpg'' empty_segment_os = Done (0, Some leak_handle, leak_state) \<and>
   fdtab empty_segment_os 4 = None \<and>
   fdtab leak_state 4 = Some \<lparr>of_data = [], of_pos = 0\<rparr> \<and>
   dvdwrap_release leak_handle leak_state =
     (- ENOENT, None, leak_state\<lparr>fdtab := (fdtab leak_state)(3 := None)\<rparr>) \<and>
   fdtab (leak_state\<lparr>fdtab := (fdtab leak_state)(3 := None)\<rparr>) 4 = Some \<lparr>of_data = [], of_pos = 0\<rparr>"
proof -
  have mem: "mem_ok empty_segment_os" by (simp add: empty_segment_os_def tree_os_def)
  have op: "dvdwrap_open ''/src'' ''/dvd.mpg'' empty_segment_os = Done (0, Some leak_handle, leak_state)"
    unfolding dvdwrap_open_def no_ifo_paths Let_def run.case bool.case leak_scan option.case prod.case
      leak_open_loop
    using mem by simp
  have before: "fdtab empty_segment_os 4 = None"
    by (simp add: empty_segment_os_def tree_os_def)
  have after: "fdtab leak_state 4 = Some \<lparr>of_data = [], of_pos = 0\<rparr>"
    by (simp add: leak_state_def)
  have rel: "dvdwrap_release leak_handle leak_state =
     (- ENOENT, None, leak_state\<lparr>fdtab := (fdtab leak_state)(3 := None)\<rparr>)"
    unfolding dvdwrap_release_def leak_release by simp
  from op before after rel show ?thesis by simp
qed

subsection \<open>The return value of release\<close>

text \<open>
  Claim C10. Whatever the handle and the state, \<^verbatim>\<open>dvdwrap_release\<close> returns \<open>-ENOENT\<close>,
  the NotFound error code, which is not 0: the caller is never told that the close
  succeeded.
\<close>

theorem release_returns_enoent:
  "fst (dvdwrap_release private s) = - ENOENT \<and> fst (dvdwrap_release private s) < 0"
  by (simp add: dvdwrap_release_def ENOENT_def)

end
